theory Spec2Isabelle
  imports Complex_Main "HOL-Library.Word" "HOL-Library.AList" "HOL-Library.Log_Nat"
    "HOL-Library.Sublist"
begin

section \<open>Host-side codec of the neural unit: values and errors\<close>

text \<open>
  The three source files (\<^verbatim>\<open>instinct.py\<close>, \<^verbatim>\<open>memory.py\<close>, \<^verbatim>\<open>personality.py\<close>) build
  fixed-format payloads, hand them to \<^verbatim>\<open>NeuralUnit.send_cmd\<close> and decode the reply.

  \<^item> A Python \<^verbatim>\<open>bytes\<close> value is a list of 8-bit words.
  \<^item> A Python \<^verbatim>\<open>str\<close> is the list of its code points (natural numbers below
    \<open>0x110000\<close>, lone surrogates included), so that the replacement character U+FFFD of
    \<^verbatim>\<open>errors="replace"\<close> has a place.
  \<^item> A Python \<^verbatim>\<open>float\<close> is an IEEE 754 double: the rational number it denotes, or one
    of the three special values. Every arithmetic operation of the source on floats
    rounds its exact result to the nearest double, ties to even (\<open>fl\<close> below). The
    sign of zero is not kept: no operation of the source tells \<open>-0.0\<close> from \<open>0.0\<close>.
    What is proved below for every finite value holds for every rational number, and so
    for every double.
  \<^item> A Python \<^verbatim>\<open>int\<close> is an \<open>int\<close>.
  \<^item> Every \<^verbatim>\<open>raise\<close> is a value \<open>Inl e\<close>; in Python \<^verbatim>\<open>UnicodeEncodeError\<close> and
    \<^verbatim>\<open>UnicodeDecodeError\<close> are subclasses of \<^verbatim>\<open>ValueError\<close>, \<^verbatim>\<open>OverflowError\<close> is not.
\<close>

type_synonym byte = "8 word"
type_synonym bytes = "byte list"
type_synonym pystr = "nat list"

datatype error =
    ValueError
  | OverflowError
  | UnicodeEncodeError
  | UnicodeDecodeError
  | TransportError

datatype pyfloat = Finite rat | PosInf | NegInf | NaN

text \<open>A string literal of the source, as code points.\<close>

definition str :: "string \<Rightarrow> pystr" where
  "str s = map of_char s"

subsection \<open>Rounding to the nearest double\<close>

text \<open>The integer nearest to \<open>r\<close>, a tie going to the even one.\<close>

definition round_half_even :: "rat \<Rightarrow> int" where
  "round_half_even r =
     (let f = \<lfloor>r\<rfloor>; d = r - of_int f
      in if d < 1/2 then f else if 1/2 < d then f + 1 else if even f then f else f + 1)"

text \<open>
  The binary exponent of a non-zero \<open>x\<close>: the \<open>e\<close> with \<open>2\<^sup>e \<le> \<bar>x\<bar> < 2\<^sup>e\<^sup>+\<^sup>1\<close>, read off
  the bit length of \<open>\<lfloor>\<bar>x\<bar>\<rfloor>\<close> when \<open>1 \<le> \<bar>x\<bar>\<close> and of \<open>\<lceil>1/\<bar>x\<bar>\<rceil> - 1\<close> otherwise.
\<close>

definition expo :: "rat \<Rightarrow> int" where
  "expo x = (if 1 \<le> \<bar>x\<bar> then bitlen \<lfloor>\<bar>x\<bar>\<rfloor> - 1 else - bitlen (\<lceil>1 / \<bar>x\<bar>\<rceil> - 1))"

text \<open>
  The exponent of the last place of the doubles around \<open>x\<close>: 53 significant bits, and
  never below \<open>2\<^sup>-\<^sup>1\<^sup>0\<^sup>7\<^sup>4\<close>, the spacing of the subnormal numbers.
\<close>

definition quantum :: "rat \<Rightarrow> int" where
  "quantum x = max (expo x - 52) (- 1074)"

text \<open>Round to nearest, ties to even, with an exponent range unbounded above.\<close>

definition fl_round :: "rat \<Rightarrow> rat" where
  "fl_round x = of_int (round_half_even (x / 2 powi quantum x)) * 2 powi quantum x"

text \<open>The largest finite double.\<close>

definition DBL_MAX :: rat where
  "DBL_MAX = (2 ^ 53 - 1) * 2 ^ 971"

text \<open>
  The double that an arithmetic operation delivers for the exact result \<open>x\<close>: a rounded
  value beyond the largest finite double is an infinity.
\<close>

definition fl :: "rat \<Rightarrow> pyfloat" where
  "fl x = (let y = fl_round x
           in if DBL_MAX < y then PosInf else if y < - DBL_MAX then NegInf else Finite y)"

subsection \<open>Float operations used by the source\<close>

text \<open>\<^verbatim>\<open>0.0 <= x <= 1.0\<close>: a chained comparison; every comparison with NaN is false.\<close>

fun in_unit_range :: "pyfloat \<Rightarrow> bool" where
  "in_unit_range (Finite r) = (0 \<le> r \<and> r \<le> 1)"
| "in_unit_range PosInf = False"
| "in_unit_range NegInf = False"
| "in_unit_range NaN = False"

text \<open>
  \<^verbatim>\<open>x + c\<close>, \<^verbatim>\<open>x - c\<close>, \<^verbatim>\<open>x * c\<close> and \<^verbatim>\<open>x / c\<close> for a positive finite constant \<open>c\<close>:
  \<open>fl_op f\<close> rounds the exact result \<open>f r\<close> on a finite \<open>r\<close>; the three special values
  stay what they are under each of these operations.
\<close>

fun fl_op :: "(rat \<Rightarrow> rat) \<Rightarrow> pyfloat \<Rightarrow> pyfloat" where
  "fl_op f (Finite r) = fl (f r)"
| "fl_op f PosInf = PosInf"
| "fl_op f NegInf = NegInf"
| "fl_op f NaN = NaN"

text \<open>\<^verbatim>\<open>int(x)\<close> truncates towards zero; it raises on NaN and on the infinities.\<close>

fun py_int :: "pyfloat \<Rightarrow> error + int" where
  "py_int (Finite r) = Inr (if 0 \<le> r then \<lfloor>r\<rfloor> else \<lceil>r\<rceil>)"
| "py_int PosInf = Inl OverflowError"
| "py_int NegInf = Inl OverflowError"
| "py_int NaN = Inl ValueError"

text \<open>Truthiness of a float: only \<open>0.0\<close> (and \<open>-0.0\<close>) is falsy.\<close>

fun truthy :: "pyfloat \<Rightarrow> bool" where
  "truthy (Finite r) = (r \<noteq> 0)"
| "truthy PosInf = True"
| "truthy NegInf = True"
| "truthy NaN = True"

text \<open>
  \<^verbatim>\<open>round(x, 4)\<close>: the exact value of \<open>x\<close> rounded to the nearest multiple of \<open>1/10000\<close>,
  ties to even, and that decimal number converted to the nearest double.
\<close>

definition round4 :: "pyfloat \<Rightarrow> pyfloat" where
  "round4 x = fl_op (\<lambda>r. of_int (round_half_even (r * 10000)) / 10000) x"

text \<open>\<^verbatim>\<open>n / 65535.0\<close> for an integer \<open>n\<close> that a double holds exactly.\<close>

definition unit_of_int :: "nat \<Rightarrow> pyfloat" where
  "unit_of_int n = fl (of_nat n / 65535)"

subsection \<open>Integers on the wire\<close>

text \<open>The \<open>len\<close> big-endian base-256 digits of \<open>n\<close>.\<close>

fun be_bytes :: "nat \<Rightarrow> nat \<Rightarrow> bytes" where
  "be_bytes 0 n = []"
| "be_bytes (Suc len) n = be_bytes len (n div 256) @ [of_nat (n mod 256)]"

text \<open>\<^verbatim>\<open>n.to_bytes(len, "big")\<close>: unsigned, raises \<^verbatim>\<open>OverflowError\<close> when \<open>n\<close> does not fit.\<close>

definition to_bytes :: "int \<Rightarrow> nat \<Rightarrow> error + bytes" where
  "to_bytes n len =
     (if n < 0 then Inl OverflowError
      else if 256 ^ len \<le> n then Inl OverflowError
      else Inr (be_bytes len (nat n)))"

text \<open>\<^verbatim>\<open>int.from_bytes(bs, "big")\<close>: defined on every length, \<open>0\<close> on the empty string.\<close>

definition from_bytes :: "bytes \<Rightarrow> nat" where
  "from_bytes bs = foldl (\<lambda>a b. a * 256 + unat b) 0 bs"

subsection \<open>Names on the wire\<close>

text \<open>\<^verbatim>\<open>s.encode("ascii")\<close>: strict.\<close>

definition encode_ascii :: "pystr \<Rightarrow> error + bytes" where
  "encode_ascii s =
     (if list_all (\<lambda>c. c < 128) s then Inr (map of_nat s) else Inl UnicodeEncodeError)"

text \<open>\<^verbatim>\<open>bs.ljust(w, b"\x00")[:w]\<close>.\<close>

definition ljust_cut :: "nat \<Rightarrow> bytes \<Rightarrow> bytes" where
  "ljust_cut w bs = take w (bs @ replicate (w - length bs) 0)"

text \<open>\<^verbatim>\<open>bs.rstrip(b"\x00")\<close>.\<close>

definition rstrip0 :: "bytes \<Rightarrow> bytes" where
  "rstrip0 bs = rev (dropWhile (\<lambda>b. b = 0) (rev bs))"

text \<open>\<^verbatim>\<open>bs.decode("ascii")\<close>: strict, raises on a byte above \<open>0x7F\<close>.\<close>

definition decode_ascii :: "bytes \<Rightarrow> error + pystr" where
  "decode_ascii bs =
     (if list_all (\<lambda>b. unat b < 128) bs then Inr (map unat bs) else Inl UnicodeDecodeError)"

text \<open>\<^verbatim>\<open>bs.decode("ascii", errors="replace")\<close>: a byte above \<open>0x7F\<close> becomes U+FFFD.\<close>

definition decode_ascii_replace :: "bytes \<Rightarrow> pystr" where
  "decode_ascii_replace bs = map (\<lambda>b. if unat b < 128 then unat b else 65533) bs"

text \<open>
  \<^verbatim>\<open>s.encode()\<close>: UTF-8, strict. A code point in the surrogate range
  \<open>0xD800 .. 0xDFFF\<close> cannot be encoded and raises \<^verbatim>\<open>UnicodeEncodeError\<close>.
\<close>

definition utf8_char :: "nat \<Rightarrow> bytes" where
  "utf8_char c =
     (if c < 0x80 then [of_nat c]
      else if c < 0x800 then [of_nat (0xC0 + c div 64), of_nat (0x80 + c mod 64)]
      else if c < 0x10000 then
        [of_nat (0xE0 + c div 4096), of_nat (0x80 + c div 64 mod 64), of_nat (0x80 + c mod 64)]
      else
        [of_nat (0xF0 + c div 262144), of_nat (0x80 + c div 4096 mod 64),
         of_nat (0x80 + c div 64 mod 64), of_nat (0x80 + c mod 64)])"

definition encode_utf8 :: "pystr \<Rightarrow> error + bytes" where
  "encode_utf8 s =
     (if list_all (\<lambda>c. c < 0xD800 \<or> 0xDFFF < c) s then Inr (concat (map utf8_char s))
      else Inl UnicodeEncodeError)"

section \<open>The transport\<close>

text \<open>
  Every command sent so far, oldest first: the opcode and the payload.
\<close>

type_synonym wire_log = "(nat \<times> bytes) list"

text \<open>
  The neural unit behind \<^verbatim>\<open>send_cmd\<close> is an external collaborator: its answer (a reply,
  or a raised transport failure) to a command is a function of the commands it has
  received before. It is a parameter of every operation below.
\<close>

type_synonym transport = "wire_log \<Rightarrow> nat \<Rightarrow> bytes \<Rightarrow> error + bytes"

text \<open>
  Modelled from the spec: \<^verbatim>\<open>NeuralUnit.send_cmd\<close> (\<^verbatim>\<open>firmware/neural_unit.py\<close>) is not
  among the source files. The transport contract reads
  \<^verbatim>\<open>sendCommand(opcode: byte, payload: bytes = empty) -> bytes\<close>, synchronous, raising on
  a transport-level failure. The call is recorded in the log whether it fails or not.
\<close>

definition send_cmd :: "transport \<Rightarrow> wire_log \<Rightarrow> nat \<Rightarrow> bytes \<Rightarrow> (error + bytes) \<times> wire_log" where
  "send_cmd tr lg cmd payload = (tr lg cmd payload, lg @ [(cmd, payload)])"

section \<open>instinct.py\<close>

definition CMD_SET_DRIVE :: nat where "CMD_SET_DRIVE = 0x20"
definition CMD_GET_DRIVE :: nat where "CMD_GET_DRIVE = 0x21"
definition CMD_LIST_DRIVES :: nat where "CMD_LIST_DRIVES = 0x22"

text \<open>
  A \<^verbatim>\<open>dict[str, float]\<close> keeps its keys in insertion order and \<^verbatim>\<open>d[k] = v\<close> on a key
  already present keeps the key's place: an association list under \<open>AList.update\<close>.
\<close>

type_synonym pydict = "(pystr \<times> pyfloat) list"

text \<open>\<^verbatim>\<open>d.update(r)\<close>: the items of \<open>r\<close> are stored one at a time, in order.\<close>

definition dict_update :: "pydict \<Rightarrow> pydict \<Rightarrow> pydict" where
  "dict_update d r = foldl (\<lambda>acc kv. AList.update (fst kv) (snd kv) acc) d r"

text \<open>An \<^verbatim>\<open>InstinctModel\<close>: what its unit has been sent, and \<^verbatim>\<open>_cache\<close>.\<close>

record instinct_model =
  unit_log :: wire_log
  cache :: pydict

definition set_drive ::
  "transport \<Rightarrow> instinct_model \<Rightarrow> pystr \<Rightarrow> pyfloat \<Rightarrow> (error + unit) \<times> instinct_model" where
  "set_drive tr m name weight =
     (if \<not> in_unit_range weight then (Inl ValueError, m)
      else case encode_ascii name of
        Inl e \<Rightarrow> (Inl e, m)
      | Inr nb \<Rightarrow>
          (let name_bytes = ljust_cut 16 nb in
           case py_int (fl_op (\<lambda>r. r * 65535) weight) of
             Inl e \<Rightarrow> (Inl e, m)
           | Inr k \<Rightarrow>
               (case to_bytes k 2 of
                  Inl e \<Rightarrow> (Inl e, m)
                | Inr w_bytes \<Rightarrow>
                    (case send_cmd tr (unit_log m) CMD_SET_DRIVE (name_bytes @ w_bytes) of
                       (Inl e, lg) \<Rightarrow> (Inl e, m\<lparr>unit_log := lg\<rparr>)
                     | (Inr reply, lg) \<Rightarrow>
                         (Inr (), m\<lparr>unit_log := lg,
                                    cache := AList.update name weight (cache m)\<rparr>)))))"

definition get_drive ::
  "transport \<Rightarrow> instinct_model \<Rightarrow> pystr \<Rightarrow> (error + pyfloat) \<times> instinct_model" where
  "get_drive tr m name =
     (case encode_ascii name of
        Inl e \<Rightarrow> (Inl e, m)
      | Inr nb \<Rightarrow>
          (let name_bytes = ljust_cut 16 nb in
           case send_cmd tr (unit_log m) CMD_GET_DRIVE name_bytes of
             (Inl e, lg) \<Rightarrow> (Inl e, m\<lparr>unit_log := lg\<rparr>)
           | (Inr raw, lg) \<Rightarrow>
               (let val = unit_of_int (from_bytes (take 2 raw))
                in (Inr val, m\<lparr>unit_log := lg, cache := AList.update name val (cache m)\<rparr>))))"

text \<open>
  The loop of \<^verbatim>\<open>list_drives\<close>, \<^verbatim>\<open>for i in range(0, len(raw), 18)\<close>, from index \<open>i\<close> on
  with the dictionary built so far.
\<close>

function list_drives_loop :: "bytes \<Rightarrow> nat \<Rightarrow> pydict \<Rightarrow> error + pydict" where
  "list_drives_loop raw i result =
     (if i < length raw then
        (if length (take 18 (drop i raw)) < 18 then Inr result
         else case decode_ascii (rstrip0 (take 16 (take 18 (drop i raw)))) of
           Inl e \<Rightarrow> Inl e
         | Inr name \<Rightarrow>
             list_drives_loop raw (i + 18)
               (AList.update name
                  (unit_of_int (from_bytes (take (18 - 16) (drop 16 (take 18 (drop i raw))))))
                  result))
      else Inr result)"
  by pat_completeness auto
termination
  by (relation "measure (\<lambda>(raw, i, result). length raw - i)") auto

definition list_drives ::
  "transport \<Rightarrow> instinct_model \<Rightarrow> (error + pydict) \<times> instinct_model" where
  "list_drives tr m =
     (case send_cmd tr (unit_log m) CMD_LIST_DRIVES [] of
        (Inl e, lg) \<Rightarrow> (Inl e, m\<lparr>unit_log := lg\<rparr>)
      | (Inr raw, lg) \<Rightarrow>
          (case list_drives_loop raw 0 [] of
             Inl e \<Rightarrow> (Inl e, m\<lparr>unit_log := lg\<rparr>)
           | Inr result \<Rightarrow>
               (Inr result, m\<lparr>unit_log := lg, cache := dict_update (cache m) result\<rparr>)))"

section \<open>memory.py\<close>

definition CMD_ENCODE :: nat where "CMD_ENCODE = 0x30"
definition CMD_RECALL :: nat where "CMD_RECALL = 0x31"
definition CMD_TRUST :: nat where "CMD_TRUST = 0x32"
definition CMD_MEM_WIPE :: nat where "CMD_MEM_WIPE = 0x3F"

definition EVENT_NAMES :: "pystr list" where
  "EVENT_NAMES = map str
     [''pet_detected'', ''face_seen'', ''object_seen'', ''touch_head'',
      ''touch_back'', ''touch_chin'', ''touch_paw'', ''tail_grab'',
      ''loud_noise'', ''darkness'', ''picked_up'', ''put_down'',
      ''fed'', ''play_initiated'', ''ignored'']"

text \<open>
  \<^verbatim>\<open>hashlib.sha256(uid.encode()).digest()[:8]\<close>. SHA-256 is the library's: the digest
  function \<open>sha\<close>, from the encoded bytes to the 32 bytes of the digest, is a parameter.
  Encoding the uid comes first and can raise.
\<close>

definition hash_uid :: "(bytes \<Rightarrow> bytes) \<Rightarrow> pystr \<Rightarrow> error + bytes" where
  "hash_uid sha uid =
     (case encode_utf8 uid of
        Inl e \<Rightarrow> Inl e
      | Inr ub \<Rightarrow> Inr (take 8 (sha ub)))"

text \<open>
  \<^verbatim>\<open>MemoryStore.encode\<close>. A \<^verbatim>\<open>MemoryStore\<close> holds its unit only, so its state is the log.
  \<open>now\<close> is what \<^verbatim>\<open>time.time()\<close> returns when it is called; \<^verbatim>\<open>timestamp or time.time()\<close>
  takes the clock when the timestamp is \<^verbatim>\<open>None\<close> or falsy.
\<close>

definition encode ::
  "(bytes \<Rightarrow> bytes) \<Rightarrow> pyfloat \<Rightarrow> transport \<Rightarrow> wire_log \<Rightarrow>
   pystr \<Rightarrow> pystr \<Rightarrow> pyfloat \<Rightarrow> pyfloat option \<Rightarrow> (error + unit) \<times> wire_log" where
  "encode sha now tr lg event uid valence timestamp =
     (if event \<notin> set EVENT_NAMES then (Inl ValueError, lg)
      else case py_int (case timestamp of
                          None \<Rightarrow> now
                        | Some t \<Rightarrow> if truthy t then t else now) of
        Inl e \<Rightarrow> (Inl e, lg)
      | Inr ts \<Rightarrow>
          (case encode_ascii event of
             Inl e \<Rightarrow> (Inl e, lg)
           | Inr eb \<Rightarrow>
               (let ev_bytes = ljust_cut 24 eb in
                case hash_uid sha uid of
                  Inl e \<Rightarrow> (Inl e, lg)
                | Inr uid_hash \<Rightarrow>
                    (case py_int (fl_op (\<lambda>r. r * 65535)
                                   (fl_op (\<lambda>r. r / 2) (fl_op (\<lambda>r. r + 1) valence))) of
                       Inl e \<Rightarrow> (Inl e, lg)
                     | Inr k \<Rightarrow>
                         (case to_bytes k 2 of
                            Inl e \<Rightarrow> (Inl e, lg)
                          | Inr val_i16 \<Rightarrow>
                              (case to_bytes ts 4 of
                                 Inl e \<Rightarrow> (Inl e, lg)
                               | Inr ts_bytes \<Rightarrow>
                                   (case send_cmd tr lg CMD_ENCODE
                                           (ev_bytes @ uid_hash @ val_i16 @ ts_bytes) of
                                      (Inl e, lg') \<Rightarrow> (Inl e, lg')
                                    | (Inr reply, lg') \<Rightarrow> (Inr (), lg'))))))))"

text \<open>One decoded event of \<^verbatim>\<open>recall\<close>: the dictionary with keys \<^verbatim>\<open>event\<close>, \<^verbatim>\<open>valence\<close>, \<^verbatim>\<open>ts\<close>.\<close>

record episode =
  event :: pystr
  valence :: pyfloat
  ts :: nat

text \<open>The loop of \<^verbatim>\<open>recall\<close>, with \<^verbatim>\<open>record_size = 38\<close>.\<close>

function recall_loop :: "bytes \<Rightarrow> nat \<Rightarrow> episode list \<Rightarrow> episode list" where
  "recall_loop raw i events =
     (if i < length raw then
        (if length (take 38 (drop i raw)) < 38 then events
         else recall_loop raw (i + 38)
                (events @
                 [\<lparr>event = decode_ascii_replace (rstrip0 (take 24 (take 38 (drop i raw)))),
                   valence = round4
                     (fl_op (\<lambda>r. r - 1) (fl_op (\<lambda>r. r * 2)
                        (unit_of_int (from_bytes (take (34 - 32) (drop 32 (take 38 (drop i raw)))))))),
                   ts = from_bytes (take (38 - 34) (drop 34 (take 38 (drop i raw))))\<rparr>]))
      else events)"
  by pat_completeness auto
termination
  by (relation "measure (\<lambda>(raw, i, events). length raw - i)") auto

definition recall :: "transport \<Rightarrow> wire_log \<Rightarrow> int \<Rightarrow> (error + episode list) \<times> wire_log" where
  "recall tr lg limit =
     (case to_bytes limit 2 of
        Inl e \<Rightarrow> (Inl e, lg)
      | Inr payload \<Rightarrow>
          (case send_cmd tr lg CMD_RECALL payload of
             (Inl e, lg') \<Rightarrow> (Inl e, lg')
           | (Inr raw, lg') \<Rightarrow> (Inr (recall_loop raw 0 []), lg')))"

definition get_trust ::
  "(bytes \<Rightarrow> bytes) \<Rightarrow> transport \<Rightarrow> wire_log \<Rightarrow> pystr \<Rightarrow> (error + pyfloat) \<times> wire_log" where
  "get_trust sha tr lg uid =
     (case hash_uid sha uid of
        Inl e \<Rightarrow> (Inl e, lg)
      | Inr uid_hash \<Rightarrow>
          (case send_cmd tr lg CMD_TRUST uid_hash of
             (Inl e, lg') \<Rightarrow> (Inl e, lg')
           | (Inr raw, lg') \<Rightarrow>
               (if length raw < 2 then (Inr (Finite 0), lg')
                else (Inr (unit_of_int (from_bytes (take 2 raw))), lg'))))"

section \<open>personality.py\<close>

definition CMD_TRAIT_GET :: nat where "CMD_TRAIT_GET = 0x40"
definition CMD_TRAIT_SET :: nat where "CMD_TRAIT_SET = 0x41"
definition CMD_TRAIT_SNAPSHOT :: nat where "CMD_TRAIT_SNAPSHOT = 0x42"

text \<open>
  \<^verbatim>\<open>PersonalityEngine.get\<close> and \<^verbatim>\<open>PersonalityEngine.set\<close>; the engine holds its unit only.
\<close>

definition get_trait :: "transport \<Rightarrow> wire_log \<Rightarrow> pystr \<Rightarrow> (error + pyfloat) \<times> wire_log" where
  "get_trait tr lg trait =
     (case encode_ascii trait of
        Inl e \<Rightarrow> (Inl e, lg)
      | Inr tb \<Rightarrow>
          (let t = ljust_cut 16 tb in
           case send_cmd tr lg CMD_TRAIT_GET t of
             (Inl e, lg') \<Rightarrow> (Inl e, lg')
           | (Inr raw, lg') \<Rightarrow> (Inr (unit_of_int (from_bytes (take 2 raw))), lg')))"

definition set_trait ::
  "transport \<Rightarrow> wire_log \<Rightarrow> pystr \<Rightarrow> pyfloat \<Rightarrow> (error + unit) \<times> wire_log" where
  "set_trait tr lg trait val =
     (if \<not> in_unit_range val then (Inl ValueError, lg)
      else case encode_ascii trait of
        Inl e \<Rightarrow> (Inl e, lg)
      | Inr tb \<Rightarrow>
          (let t = ljust_cut 16 tb in
           case py_int (fl_op (\<lambda>r. r * 65535) val) of
             Inl e \<Rightarrow> (Inl e, lg)
           | Inr k \<Rightarrow>
               (case to_bytes k 2 of
                  Inl e \<Rightarrow> (Inl e, lg)
                | Inr v \<Rightarrow>
                    (case send_cmd tr lg CMD_TRAIT_SET (t @ v) of
                       (Inl e, lg') \<Rightarrow> (Inl e, lg')
                     | (Inr reply, lg') \<Rightarrow> (Inr (), lg')))))"

text \<open>The loop of \<^verbatim>\<open>snapshot\<close>: as in \<^verbatim>\<open>list_drives\<close>, the value rounded to four digits.\<close>

function snapshot_loop :: "bytes \<Rightarrow> nat \<Rightarrow> pydict \<Rightarrow> error + pydict" where
  "snapshot_loop raw i result =
     (if i < length raw then
        (if length (take 18 (drop i raw)) < 18 then Inr result
         else case decode_ascii (rstrip0 (take 16 (take 18 (drop i raw)))) of
           Inl e \<Rightarrow> Inl e
         | Inr name \<Rightarrow>
             snapshot_loop raw (i + 18)
               (AList.update name
                  (round4 (unit_of_int (from_bytes (take (18 - 16) (drop 16 (take 18 (drop i raw)))))))
                  result))
      else Inr result)"
  by pat_completeness auto
termination
  by (relation "measure (\<lambda>(raw, i, result). length raw - i)") auto

definition snapshot :: "transport \<Rightarrow> wire_log \<Rightarrow> (error + pydict) \<times> wire_log" where
  "snapshot tr lg =
     (case send_cmd tr lg CMD_TRAIT_SNAPSHOT [] of
        (Inl e, lg') \<Rightarrow> (Inl e, lg')
      | (Inr raw, lg') \<Rightarrow>
          (case snapshot_loop raw 0 [] of
             Inl e \<Rightarrow> (Inl e, lg')
           | Inr result \<Rightarrow> (Inr result, lg')))"

section \<open>Records of a reply buffer\<close>

text \<open>
  What the statements about the array decoders are written with. The spec partitions
  a reply into chunks of the record size \<open>n\<close>; \<open>chunk_at n raw k\<close> is chunk number \<open>k\<close>,
  counted from 0, which is a full record when \<open>k < length raw div n\<close>.
\<close>

definition chunk_at :: "nat \<Rightarrow> bytes \<Rightarrow> nat \<Rightarrow> bytes" where
  "chunk_at n raw k = take n (drop (n * k) raw)"

text \<open>The 16-byte name field of an 18-byte record holds only bytes below \<open>0x80\<close>.\<close>

definition ascii_name :: "bytes \<Rightarrow> bool" where
  "ascii_name c = list_all (\<lambda>b. unat b < 128) (take 16 c)"

text \<open>
  The name and the value that an 18-byte record with an ASCII name stands for: the
  name field without its trailing zero bytes, and the big-endian value of the last
  two bytes divided by 65535.
\<close>

definition named_value :: "bytes \<Rightarrow> pystr \<times> pyfloat" where
  "named_value c = (map unat (rstrip0 (take 16 c)), unit_of_int (from_bytes (take 2 (drop 16 c))))"

text \<open>\<^verbatim>\<open>result[name] = val\<close> for a pair.\<close>

definition store :: "pydict \<Rightarrow> pystr \<times> pyfloat \<Rightarrow> pydict" where
  "store d kv = AList.update (fst kv) (snd kv) d"

text \<open>
  The event that a 38-byte record stands for: the 24-byte name field without its
  trailing zero bytes, decoded leniently; the valence from bytes 32 and 33; the
  timestamp from the last four bytes.
\<close>

definition episode_of :: "bytes \<Rightarrow> episode" where
  "episode_of c =
     \<lparr>event = decode_ascii_replace (rstrip0 (take 24 c)),
      valence = round4 (fl_op (\<lambda>r. r - 1) (fl_op (\<lambda>r. r * 2)
                  (unit_of_int (from_bytes (take 2 (drop 32 c)))))),
      ts = from_bytes (take 4 (drop 34 c))\<rparr>"

section \<open>Fixtures\<close>

text \<open>A unit that answers every command with the same reply.\<close>

definition reply_with :: "bytes \<Rightarrow> transport" where
  "reply_with raw lg cmd payload = Inr raw"

text \<open>
  A unit that answers with the value bytes of the command it received last: what
  follows the 16-byte name in that command's payload.
\<close>

definition echo_unit :: transport where
  "echo_unit lg cmd payload = (if lg = [] then Inr [] else Inr (drop 16 (snd (last lg))))"

text \<open>A unit that answers with the whole payload of the command it received last.\<close>

definition mirror_unit :: transport where
  "mirror_unit lg cmd payload = (if lg = [] then Inr [] else Inr (snd (last lg)))"

definition fresh_model :: instinct_model where
  "fresh_model = \<lparr>unit_log = [], cache = []\<rparr>"

text \<open>A stand-in for the digest: 32 bytes, whatever the input.\<close>

definition stub_digest :: "bytes \<Rightarrow> bytes" where
  "stub_digest ub = replicate 32 7"


text \<open>
  A reply of 41 bytes: one episodic record whose name field starts with the byte
  \<open>0x80\<close>, all other bytes 0, and three bytes more.
\<close>

definition one_episode :: bytes where
  "one_episode =
     [0x80, 0, 0, 0, 0, 0, 0, 0, 0, 0, 0, 0, 0, 0, 0, 0, 0, 0, 0, 0, 0, 0, 0, 0,
      0, 0, 0, 0, 0, 0, 0, 0,
      0, 0,
      0, 0, 0, 0] @
     [1, 2, 3]"

section \<open>Facts about rounding\<close>

lemma powi_pos [simp]: "0 < (2::rat) powi e" by simp

lemma expo_bounds:
  assumes "x \<noteq> 0"
  shows "2 powi expo x \<le> \<bar>x\<bar>" and "\<bar>x\<bar> < 2 powi (expo x + 1)"
proof -
  let ?a = "\<bar>x\<bar>"
  have pos: "0 < ?a" using assms by simp
  have "2 powi expo x \<le> ?a \<and> ?a < 2 powi (expo x + 1)"
  proof (cases "1 \<le> ?a")
    case True
    let ?n = "\<lfloor>?a\<rfloor>"
    have n: "0 < ?n" using True by linarith
    have e: "expo x = bitlen ?n - 1" using True by (simp add: expo_def)
    have bl: "0 < bitlen ?n" using n bitlen_nonneg [of ?n] bitlen_eq_zero_iff [of ?n] by linarith
    from bitlen_bounds [OF n] have lo: "2 ^ nat (bitlen ?n - 1) \<le> ?n" and hi: "?n < 2 ^ nat (bitlen ?n)"
      by auto
    have "(2::rat) powi (bitlen ?n - 1) = of_int (2 ^ nat (bitlen ?n - 1))"
      using bl by (simp add: power_int_def)
    also have "\<dots> \<le> of_int ?n" using lo by (simp only: of_int_le_iff)
    also have "\<dots> \<le> ?a" by simp
    finally have A: "2 powi expo x \<le> ?a" using e by simp
    have "?n + 1 \<le> 2 ^ nat (bitlen ?n)" using hi by simp
    then have "(of_int (?n + 1) :: rat) \<le> of_int (2 ^ nat (bitlen ?n))" by (simp only: of_int_le_iff)
    moreover have "?a < of_int (?n + 1)" by linarith
    ultimately have "?a < of_int (2 ^ nat (bitlen ?n))" by linarith
    also have "\<dots> = 2 powi (bitlen ?n)" using bl by (simp add: power_int_def)
    finally have "?a < 2 powi (expo x + 1)" using e by simp
    with A show ?thesis by simp
  next
    case False
    then have lt: "?a < 1" by simp
    let ?t = "1 / ?a"
    let ?c = "\<lceil>?t\<rceil> - 1"
    have t: "1 < ?t" using pos lt by simp
    have c: "0 < ?c" using t by linarith
    have e: "expo x = - bitlen ?c" using False by (simp add: expo_def)
    have bl: "0 < bitlen ?c" using c bitlen_nonneg [of ?c] bitlen_eq_zero_iff [of ?c] by linarith
    from bitlen_bounds [OF c] have lo: "2 ^ nat (bitlen ?c - 1) \<le> ?c" and hi: "?c < 2 ^ nat (bitlen ?c)"
      by auto
    have "?c + 1 \<le> 2 ^ nat (bitlen ?c)" using hi by simp
    then have "(of_int (?c + 1) :: rat) \<le> of_int (2 ^ nat (bitlen ?c))" by (simp only: of_int_le_iff)
    moreover have "?t \<le> of_int (?c + 1)" by simp
    ultimately have "?t \<le> of_int (2 ^ nat (bitlen ?c))" by linarith
    also have "\<dots> = 2 powi (bitlen ?c)" using bl by (simp add: power_int_def)
    finally have t_le: "?t \<le> 2 powi (bitlen ?c)" .
    have "1 \<le> 2 powi (bitlen ?c) * ?a" using t_le pos by (simp add: field_simps)
    then have "1 / 2 powi (bitlen ?c) \<le> ?a" by (simp add: field_simps)
    then have A: "2 powi expo x \<le> ?a" using e by (simp add: power_int_minus_divide)
    have "(of_int (2 ^ nat (bitlen ?c - 1)) :: rat) \<le> of_int ?c" using lo by (simp only: of_int_le_iff)
    moreover have "of_int ?c < ?t" by linarith
    ultimately have "of_int (2 ^ nat (bitlen ?c - 1)) < ?t" by linarith
    moreover have "(of_int (2 ^ nat (bitlen ?c - 1)) :: rat) = 2 powi (bitlen ?c - 1)"
      using bl by (simp add: power_int_def)
    ultimately have t_gt: "2 powi (bitlen ?c - 1) < ?t" by simp
    have "2 powi (bitlen ?c - 1) * ?a < 1" using t_gt pos by (simp add: field_simps)
    then have "?a < 1 / 2 powi (bitlen ?c - 1)" by (simp add: field_simps)
    then have "?a < 2 powi (- (bitlen ?c - 1))" by (simp only: power_int_minus_divide)
    then have "?a < 2 powi (expo x + 1)" using e by simp
    with A show ?thesis by simp
  qed
  then show "2 powi expo x \<le> \<bar>x\<bar>" and "\<bar>x\<bar> < 2 powi (expo x + 1)" by auto
qed


lemma pow2_less_iff: "(2::rat) powi a < 2 powi b \<longleftrightarrow> a < b"
proof
  assume lt: "(2::rat) powi a < 2 powi b"
  show "a < b"
  proof (rule ccontr)
    assume "\<not> a < b"
    then have "b \<le> a" by simp
    then have "(2::rat) powi b \<le> 2 powi a" by (rule power_int_increasing) simp
    with lt show False by simp
  qed
next
  assume "a < b"
  then show "(2::rat) powi a < 2 powi b" by (rule power_int_strict_increasing) simp
qed

lemma pow2_le_iff: "(2::rat) powi a \<le> 2 powi b \<longleftrightarrow> a \<le> b"
  using pow2_less_iff [of b a] by (simp add: not_less [symmetric])

lemma expo_less:
  assumes "x \<noteq> 0" and "\<bar>x\<bar> < 2 powi k"
  shows "expo x < k"
proof -
  have "2 powi expo x < (2::rat) powi k"
    using expo_bounds(1) [OF assms(1)] assms(2) by simp
  then show ?thesis by (simp only: pow2_less_iff)
qed

lemma expo_ge:
  assumes "2 powi k \<le> \<bar>x\<bar>"
  shows "k \<le> expo x"
proof -
  have "0 < (2::rat) powi k" by simp
  with assms have "0 < \<bar>x\<bar>" by linarith
  then have nz: "x \<noteq> 0" by simp
  have "(2::rat) powi k < 2 powi (expo x + 1)"
    using expo_bounds(2) [OF nz] assms by simp
  then have "k < expo x + 1" by (simp only: pow2_less_iff)
  then show ?thesis by simp
qed

lemma expo_unique:
  assumes "2 powi k \<le> \<bar>x\<bar>" and "\<bar>x\<bar> < 2 powi (k + 1)"
  shows "expo x = k"
proof -
  have "0 < (2::rat) powi k" by simp
  with assms have "0 < \<bar>x\<bar>" by linarith
  then have nz: "x \<noteq> 0" by simp
  have "expo x < k + 1" by (rule expo_less [OF nz assms(2)])
  moreover have "k \<le> expo x" by (rule expo_ge [OF assms(1)])
  ultimately show ?thesis by simp
qed

lemma rhe_cases: "round_half_even t = \<lfloor>t\<rfloor> \<or> round_half_even t = \<lfloor>t\<rfloor> + 1"
  by (simp add: round_half_even_def Let_def)

lemma rhe_error: "\<bar>of_int (round_half_even t) - t\<bar> \<le> 1/2"
proof -
  have lo: "of_int \<lfloor>t\<rfloor> \<le> t" by simp
  have hi: "t < of_int \<lfloor>t\<rfloor> + 1" by linarith
  show ?thesis
    unfolding round_half_even_def Let_def using lo hi by (auto simp: abs_le_iff) 
qed

lemma rhe_of_int [simp]: "round_half_even (of_int k) = k"
  by (simp add: round_half_even_def)

lemma rhe_le:
  assumes "t \<le> of_int k"
  shows "round_half_even t \<le> k"
proof -
  have fl: "\<lfloor>t\<rfloor> \<le> k" using assms by (simp add: floor_le_iff)
  show ?thesis
  proof (cases "t = of_int \<lfloor>t\<rfloor>")
    case True
    then have "round_half_even t = \<lfloor>t\<rfloor>" by (metis rhe_of_int)
    with fl show ?thesis by simp
  next
    case False
    then have "of_int \<lfloor>t\<rfloor> < t" using of_int_floor_le [of t] by (auto simp: less_le)
    with assms have "(of_int \<lfloor>t\<rfloor> :: rat) < of_int k" by simp
    then have "\<lfloor>t\<rfloor> < k" by (simp only: of_int_less_iff)
    then show ?thesis using rhe_cases [of t] by auto
  qed
qed

lemma rhe_ge:
  assumes "of_int k \<le> t"
  shows "k \<le> round_half_even t"
proof -
  have "k \<le> \<lfloor>t\<rfloor>" using assms by (simp add: le_floor_iff)
  then show ?thesis using rhe_cases [of t] by auto
qed

lemma rhe_eqI:
  assumes "\<bar>t - of_int k\<bar> < 1/2"
  shows "round_half_even t = k"
proof -
  have e: "\<bar>of_int (round_half_even t) - t\<bar> \<le> 1/2" by (rule rhe_error)
  have "\<bar>(of_int (round_half_even t) :: rat) - of_int k\<bar> < 1" using assms e by linarith
  then have "\<bar>(of_int (round_half_even t - k) :: rat)\<bar> < 1" by simp
  then have "\<bar>round_half_even t - k\<bar> < 1" by (simp only: of_int_abs [symmetric] of_int_less_1_iff)
  then show ?thesis by simp
qed

lemma fl_round_zero [simp]: "fl_round 0 = 0"
  by (simp add: fl_round_def round_half_even_def)

lemma fl_round_error: "\<bar>fl_round x - x\<bar> \<le> 2 powi (quantum x - 1)"
proof -
  let ?P = "(2::rat) powi quantum x"
  have P: "0 < ?P" by simp
  have "fl_round x - x = (of_int (round_half_even (x / ?P)) - x / ?P) * ?P"
    by (simp add: fl_round_def algebra_simps)
  then have "\<bar>fl_round x - x\<bar> = \<bar>of_int (round_half_even (x / ?P)) - x / ?P\<bar> * ?P"
    using P by (simp add: abs_mult)
  also have "\<dots> \<le> 1/2 * ?P"
    using rhe_error [of "x / ?P"] P by (intro mult_right_mono) auto
  also have "\<dots> = 2 powi (quantum x - 1)"
    by (simp add: power_int_diff)
  finally show ?thesis .
qed

lemma grid_point:
  assumes "q \<le> e"
  shows "\<exists>M::int. of_int m * 2 powi e = (of_int M :: rat) * 2 powi q"
proof -
  have "(2::rat) powi e = 2 powi ((e - q) + q)" by simp
  also have "\<dots> = 2 powi (e - q) * 2 powi q" by (rule power_int_add) simp
  also have "(2::rat) powi (e - q) = 2 ^ nat (e - q)" using assms by (simp add: power_int_def)
  also have "\<dots> = of_int (2 ^ nat (e - q))" by simp
  finally have "(2::rat) powi e = of_int (2 ^ nat (e - q)) * 2 powi q" .
  then have "of_int m * 2 powi e = (of_int (m * 2 ^ nat (e - q)) :: rat) * 2 powi q"
    by (simp only: of_int_mult mult.assoc)
  then show ?thesis ..
qed

lemma scaled_round_le:
  fixes P :: rat
  assumes "0 < P" and "x \<le> of_int M * P"
  shows "of_int (round_half_even (x / P)) * P \<le> of_int M * P"
proof -
  have "x / P \<le> of_int M" using assms by (simp add: pos_divide_le_eq)
  then have "round_half_even (x / P) \<le> M" by (rule rhe_le)
  then have "(of_int (round_half_even (x / P)) :: rat) \<le> of_int M" by (simp only: of_int_le_iff)
  then show ?thesis using assms(1) by (rule mult_right_mono [OF _ less_imp_le])
qed

lemma scaled_round_ge:
  fixes P :: rat
  assumes "0 < P" and "of_int M * P \<le> x"
  shows "of_int M * P \<le> of_int (round_half_even (x / P)) * P"
proof -
  have "of_int M \<le> x / P" using assms by (simp add: pos_le_divide_eq)
  then have "M \<le> round_half_even (x / P)" by (rule rhe_ge)
  then have "(of_int M :: rat) \<le> of_int (round_half_even (x / P))" by (simp only: of_int_le_iff)
  then show ?thesis using assms(1) by (rule mult_right_mono [OF _ less_imp_le])
qed

lemma scaled_round_below:
  fixes P :: rat
  assumes "0 < P" and "of_int (round_half_even (x / P)) * P < of_int M * P"
  shows "x \<le> of_int M * P - 1/2 * P"
proof -
  let ?r = "round_half_even (x / P)"
  have "(of_int ?r :: rat) < of_int M" using assms by (simp only: mult_less_cancel_right_pos)
  then have "?r < M" by (simp only: of_int_less_iff)
  then have "?r + 1 \<le> M" by simp
  then have "(of_int (?r + 1) :: rat) \<le> of_int M" by (simp only: of_int_le_iff)
  then have "(of_int ?r :: rat) \<le> of_int M - 1" by simp
  moreover have "x / P \<le> of_int ?r + 1/2" using rhe_error [of "x / P"] by linarith
  ultimately have "x / P \<le> of_int M - 1/2" by linarith
  then have "x \<le> (of_int M - 1/2) * P" using assms(1) by (simp add: pos_divide_le_eq)
  then show ?thesis by (simp add: algebra_simps)
qed

lemma fl_round_grid_le:
  assumes "quantum x \<le> e" and "x \<le> of_int m * 2 powi e"
  shows "fl_round x \<le> of_int m * 2 powi e"
proof -
  obtain M :: int where M: "of_int m * 2 powi e = (of_int M :: rat) * 2 powi quantum x"
    using grid_point [OF assms(1)] by blast
  show ?thesis
    unfolding fl_round_def M using assms(2) unfolding M by (intro scaled_round_le) simp_all
qed

lemma fl_round_grid_ge:
  assumes "quantum x \<le> e" and "of_int m * 2 powi e \<le> x"
  shows "of_int m * 2 powi e \<le> fl_round x"
proof -
  obtain M :: int where M: "of_int m * 2 powi e = (of_int M :: rat) * 2 powi quantum x"
    using grid_point [OF assms(1)] by blast
  show ?thesis
    unfolding fl_round_def M using assms(2) unfolding M by (intro scaled_round_ge) simp_all
qed

lemma fl_round_grid:
  assumes "quantum x \<le> e" and "x = of_int m * 2 powi e"
  shows "fl_round x = x"
proof -
  have "fl_round x \<le> of_int m * 2 powi e" using assms by (intro fl_round_grid_le) auto
  moreover have "of_int m * 2 powi e \<le> fl_round x" using assms by (intro fl_round_grid_ge) auto
  ultimately show ?thesis using assms(2) by simp
qed

lemma fl_round_below_grid:
  assumes "quantum x \<le> e" and "fl_round x < of_int m * 2 powi e"
  shows "x \<le> of_int m * 2 powi e - 2 powi (quantum x - 1)"
proof -
  obtain M :: int where M: "of_int m * 2 powi e = (of_int M :: rat) * 2 powi quantum x"
    using grid_point [OF assms(1)] by blast
  have "x \<le> of_int M * 2 powi quantum x - 1/2 * 2 powi quantum x"
    using assms(2) unfolding fl_round_def M by (intro scaled_round_below) simp_all
  moreover have "1/2 * (2::rat) powi quantum x = 2 powi (quantum x - 1)"
    by (simp add: power_int_diff)
  ultimately show ?thesis unfolding M by simp
qed

lemma quantum_le:
  assumes "x \<noteq> 0" and "\<bar>x\<bar> < 2 powi (e + 53)" and "- 1074 \<le> e"
  shows "quantum x \<le> e"
proof -
  have "expo x < e + 53" by (rule expo_less [OF assms(1,2)])
  then show ?thesis using assms(3) by (simp add: quantum_def)
qed

section \<open>Facts about the codecs\<close>

lemma length_be_bytes: "length (be_bytes len n) = len"
  by (induction len arbitrary: n) auto

lemma from_bytes_snoc: "from_bytes (bs @ [b]) = from_bytes bs * 256 + unat b"
  by (simp add: from_bytes_def)

lemma unat_byte_of_mod: "unat (of_nat (n mod 256) :: byte) = n mod 256"
  by (simp add: unat_of_nat)

lemma from_bytes_be_bytes: "from_bytes (be_bytes len n) = n mod 256 ^ len"
proof (induction len arbitrary: n)
  case 0
  show ?case by (simp add: from_bytes_def)
next
  case (Suc len)
  have "from_bytes (be_bytes (Suc len) n) = (n div 256) mod 256 ^ len * 256 + n mod 256"
    by (simp add: from_bytes_snoc Suc.IH unat_byte_of_mod)
  also have "\<dots> = n mod 256 ^ Suc len"
    by (simp add: mod_mult2_eq)
  finally show ?case .
qed

lemma length_ljust_cut: "length (ljust_cut w bs) = w"
  by (simp add: ljust_cut_def)

lemma to_bytes_ok: "0 \<le> n \<Longrightarrow> n < 256 ^ len \<Longrightarrow> to_bytes n len = Inr (be_bytes len (nat n))"
  by (simp add: to_bytes_def)

lemma in_unit_range_iff: "in_unit_range w \<longleftrightarrow> (\<exists>r. w = Finite r \<and> 0 \<le> r \<and> r \<le> 1)"
  by (cases w) auto

lemma DBL_MAX_big: "2 ^ 53 \<le> DBL_MAX"
  by (simp add: DBL_MAX_def)

lemma fl_finite:
  assumes "\<bar>fl_round x\<bar> \<le> DBL_MAX"
  shows "fl x = Finite (fl_round x)"
  using assms by (simp add: fl_def Let_def abs_le_iff)

lemma fl_round_range:
  assumes "of_int a \<le> x" and "x \<le> of_int b" and "\<bar>a\<bar> < 2 ^ 53" and "\<bar>b\<bar> < 2 ^ 53"
  shows "of_int a \<le> fl_round x" and "fl_round x \<le> of_int b"
proof -
  have "of_int a \<le> fl_round x \<and> fl_round x \<le> of_int b"
  proof (cases "x = 0")
    case True
    then show ?thesis using assms(1,2) by simp
  next
    case False
    have "\<bar>x\<bar> \<le> max \<bar>of_int a\<bar> \<bar>of_int b\<bar>" using assms(1,2) by linarith
    also have "\<dots> = of_int (max \<bar>a\<bar> \<bar>b\<bar>)" by simp
    also have "\<dots> < of_int (2 ^ 53)" using assms(3,4) by simp
    finally have "\<bar>x\<bar> < 2 powi (0 + 53)" by simp
    then have q: "quantum x \<le> 0" using False by (intro quantum_le) simp_all
    have "of_int a * 2 powi 0 \<le> fl_round x" using assms(1) by (intro fl_round_grid_ge [OF q]) simp
    moreover have "fl_round x \<le> of_int b * 2 powi 0" using assms(2) by (intro fl_round_grid_le [OF q]) simp
    ultimately show ?thesis by simp
  qed
  then show "of_int a \<le> fl_round x" and "fl_round x \<le> of_int b" by auto
qed

lemma fl_in_range:
  assumes "of_int a \<le> x" and "x \<le> of_int b" and "\<bar>a\<bar> < 2 ^ 53" and "\<bar>b\<bar> < 2 ^ 53"
  shows "fl x = Finite (fl_round x)"
proof -
  note r = fl_round_range [OF assms]
  have "(of_int b :: rat) \<le> of_int (2 ^ 53)" using assms(4) by simp
  then have hi: "fl_round x \<le> 2 ^ 53" using r(2) by simp
  have "(of_int (- (2 ^ 53)) :: rat) \<le> of_int a" using assms(3) by simp
  then have lo: "- (2 ^ 53) \<le> fl_round x" using r(1) by simp
  show ?thesis using lo hi DBL_MAX_big by (intro fl_finite) (simp add: abs_le_iff)
qed

lemma unit_of_int_finite:
  assumes "n < 65536"
  shows "unit_of_int n = Finite (fl_round (of_nat n / 65535))"
    and "0 \<le> fl_round (of_nat n / 65535)"
    and "fl_round (of_nat n / 65535) \<le> 1"
proof -
  have a: "of_int 0 \<le> (of_nat n / 65535 :: rat)" by simp
  have "(of_nat n :: rat) \<le> of_nat 65535" using assms by simp
  then have b: "(of_nat n / 65535 :: rat) \<le> of_int 1" by simp
  show "unit_of_int n = Finite (fl_round (of_nat n / 65535))"
    unfolding unit_of_int_def by (rule fl_in_range [OF a b]) simp_all
  show "0 \<le> fl_round (of_nat n / 65535)"
    using fl_round_range(1) [OF a b] by simp
  show "fl_round (of_nat n / 65535) \<le> 1"
    using fl_round_range(2) [OF a b] by simp
qed

lemma from_bytes_short:
  assumes "length raw < 2"
  shows "from_bytes raw < 256"
proof (cases raw)
  case Nil
  then show ?thesis by (simp add: from_bytes_def)
next
  case (Cons b bs)
  with assms have "raw = [b]" by simp
  moreover have "unat b < 256" using unsigned_less [of b] by simp
  ultimately show ?thesis by (simp add: from_bytes_def)
qed

lemma fl_round_valueI:
  assumes "2 powi k \<le> \<bar>x\<bar>" and "\<bar>x\<bar> < 2 powi (k + 1)" and "- 1022 \<le> k"
    and "\<bar>x / 2 powi (k - 52) - of_int m\<bar> < 1/2"
  shows "fl_round x = of_int m * 2 powi (k - 52)"
proof -
  have "expo x = k" by (rule expo_unique [OF assms(1,2)])
  then have q: "quantum x = k - 52" using assms(3) by (simp add: quantum_def)
  have "round_half_even (x / 2 powi (k - 52)) = m" by (rule rhe_eqI [OF assms(4)])
  then show ?thesis by (simp add: fl_round_def q)
qed

lemma unit_of_int_0: "unit_of_int 0 = Finite 0"
  using unit_of_int_finite(1) [of 0] by simp

lemma unit_of_int_5: "unit_of_int 5 = Finite (1407396358717445 / 2 ^ 64)"
proof -
  have "fl_round (5 / 65535) = of_int 5629585434869780 * 2 powi (- 14 - 52)"
    by (rule fl_round_valueI) simp_all
  also have "\<dots> = 1407396358717445 / 2 ^ 64" by simp
  finally show ?thesis using unit_of_int_finite(1) [of 5] by simp
qed

lemma get_drive_reply:
  assumes "encode_ascii name = Inr nb"
    and "tr (unit_log m) CMD_GET_DRIVE (ljust_cut 16 nb) = Inr raw"
  shows "get_drive tr m name =
           (Inr (unit_of_int (from_bytes (take 2 raw))),
            m\<lparr>unit_log := unit_log m @ [(CMD_GET_DRIVE, ljust_cut 16 nb)],
              cache := AList.update name (unit_of_int (from_bytes (take 2 raw))) (cache m)\<rparr>)"
  using assms by (simp add: get_drive_def send_cmd_def Let_def)

lemma get_trait_reply:
  assumes "encode_ascii trait = Inr tb"
    and "tr lg CMD_TRAIT_GET (ljust_cut 16 tb) = Inr raw"
  shows "get_trait tr lg trait =
           (Inr (unit_of_int (from_bytes (take 2 raw))), lg @ [(CMD_TRAIT_GET, ljust_cut 16 tb)])"
  using assms by (simp add: get_trait_def send_cmd_def Let_def)

lemma encode_ascii_rest: "encode_ascii (str ''rest'') = Inr [114, 101, 115, 116]"
  by (simp add: encode_ascii_def str_def)

lemma encode_ascii_bold: "encode_ascii (str ''bold'') = Inr [98, 111, 108, 100]"
  by (simp add: encode_ascii_def str_def)

lemma encode_ascii_x: "encode_ascii (str ''x'') = Inr [120]"
  by (simp add: encode_ascii_def str_def)

section \<open>Range validation of drive weights\<close>

text \<open>
  Claim C7. For every weight outside \<open>[0.0, 1.0]\<close> (a finite value below 0 or above 1,
  an infinity or NaN), \<^verbatim>\<open>set_drive\<close> raises \<^verbatim>\<open>ValueError\<close> and leaves the model as it
  was: nothing is added to the log of commands sent to the unit, and the cache is
  unchanged.
\<close>

theorem set_drive_out_of_range:
  assumes "weight \<notin> Finite ` {0..1}"
  shows "set_drive tr m name weight = (Inl ValueError, m) \<and>
         unit_log (snd (set_drive tr m name weight)) = unit_log m \<and>
         cache (snd (set_drive tr m name weight)) = cache m"
proof -
  have "\<not> in_unit_range weight"
    using assms by (auto simp: in_unit_range_iff)
  then show ?thesis by (simp add: set_drive_def)
qed

theorem set_drive_out_of_range_witness:
  "Finite (3/2) \<notin> Finite ` {0..1} \<and>
   set_drive (reply_with []) fresh_model (str ''x'') (Finite (3/2)) = (Inl ValueError, fresh_model) \<and>
   unit_log (snd (set_drive (reply_with []) fresh_model (str ''x'') (Finite (3/2)))) = unit_log fresh_model \<and>
   cache (snd (set_drive (reply_with []) fresh_model (str ''x'') (Finite (3/2)))) = cache fresh_model"
proof -
  have out: "Finite (3/2) \<notin> Finite ` {0..1}" by auto
  show ?thesis
    using out set_drive_out_of_range [OF out, of "reply_with []" fresh_model "str ''x''"]
    by simp
qed

section \<open>Short replies\<close>

text \<open>
  Claim C8 says that for every uid and every reply of the unit shorter than 2 bytes
  \<^verbatim>\<open>get_trust\<close> returns \<open>0.0\<close> and does not raise. A \<^verbatim>\<open>str\<close> can hold a lone surrogate,
  and \<^verbatim>\<open>uid.encode()\<close> then raises \<^verbatim>\<open>UnicodeEncodeError\<close> before the command is sent:
  for the one-character uid U+D800 and a unit that answers every command with the
  single byte \<open>09\<close>, \<^verbatim>\<open>get_trust\<close> raises and nothing has been sent.
\<close>

theorem get_trust_unencodable_uid_counterexample:
  "get_trust stub_digest (reply_with [9]) [] [0xD800] = (Inl UnicodeEncodeError, [])"
  by (simp add: get_trust_def hash_uid_def encode_utf8_def)

text \<open>
  Claim C8, amended. For every uid that UTF-8 can encode (no code point in the
  surrogate range), every digest function and every reply of the unit shorter than 2
  bytes, \<^verbatim>\<open>get_trust\<close> returns exactly \<open>0.0\<close> and does not raise; the one command it
  sent is \<^verbatim>\<open>CMD_TRUST\<close> with the first 8 bytes of the digest of the encoded uid.
\<close>

theorem get_trust_short_reply:
  assumes "encode_utf8 uid = Inr ub"
    and "tr lg CMD_TRUST (take 8 (sha ub)) = Inr raw"
    and "length raw < 2"
  shows "get_trust sha tr lg uid = (Inr (Finite 0), lg @ [(CMD_TRUST, take 8 (sha ub))])"
  using assms by (simp add: get_trust_def hash_uid_def send_cmd_def)

theorem get_trust_short_reply_witness:
  "get_trust stub_digest (reply_with [9]) [] (str ''unknown-uid'') =
     (Inr (Finite 0), [] @ [(CMD_TRUST, take 8 (stub_digest (map of_nat (str ''unknown-uid''))))])"
proof -
  have a: "encode_utf8 (str ''unknown-uid'') = Inr (map of_nat (str ''unknown-uid''))"
    by (simp add: encode_utf8_def str_def utf8_char_def)
  have b: "reply_with [9] [] CMD_TRUST (take 8 (stub_digest (map of_nat (str ''unknown-uid'')))) =
             Inr [9]"
    by (simp add: reply_with_def)
  have c: "length [9 :: byte] < 2" by simp
  show ?thesis
    by (rule get_trust_short_reply
        [where tr = "reply_with [9]" and lg = "[]" and sha = stub_digest, OF a b c])
qed

text \<open>
  Claim C3 says that \<^verbatim>\<open>get_trust\<close> alone masks an undersized reply and that
  \<^verbatim>\<open>get_drive\<close> and the trait \<^verbatim>\<open>get\<close> surface an error on a reply shorter than 2
  bytes. They do not: \<^verbatim>\<open>int.from_bytes(raw[:2], "big")\<close> accepts the empty string and a
  single byte. On an empty reply both return \<open>0.0\<close>, on the one-byte reply \<open>05\<close> both
  return the double nearest to \<open>5/65535\<close>, which is \<open>1407396358717445 / 2\<^sup>6\<^sup>4\<close>.
\<close>

theorem get_drive_masks_short_reply_counterexample:
  "fst (get_drive (reply_with []) fresh_model (str ''rest'')) = Inr (Finite 0) \<and>
   fst (get_drive (reply_with [5]) fresh_model (str ''rest'')) =
     Inr (Finite (1407396358717445 / 2 ^ 64)) \<and>
   fst (get_trait (reply_with []) [] (str ''bold'')) = Inr (Finite 0) \<and>
   fst (get_trait (reply_with [5]) [] (str ''bold'')) =
     Inr (Finite (1407396358717445 / 2 ^ 64))"
proof -
  have e: "from_bytes [] = 0" "from_bytes [5] = 5" by (simp_all add: from_bytes_def)
  have "fst (get_drive (reply_with []) fresh_model (str ''rest'')) = Inr (Finite 0)"
    by (simp add: get_drive_reply [OF encode_ascii_rest] reply_with_def e unit_of_int_0)
  moreover have "fst (get_drive (reply_with [5]) fresh_model (str ''rest'')) =
      Inr (Finite (1407396358717445 / 2 ^ 64))"
    by (simp add: get_drive_reply [OF encode_ascii_rest] reply_with_def e unit_of_int_5)
  moreover have "fst (get_trait (reply_with []) [] (str ''bold'')) = Inr (Finite 0)"
    by (simp add: get_trait_reply [OF encode_ascii_bold] reply_with_def e unit_of_int_0)
  moreover have "fst (get_trait (reply_with [5]) [] (str ''bold'')) =
      Inr (Finite (1407396358717445 / 2 ^ 64))"
    by (simp add: get_trait_reply [OF encode_ascii_bold] reply_with_def e unit_of_int_5)
  ultimately show ?thesis by blast
qed

text \<open>
  Claim C3, amended. A reply shorter than 2 bytes makes neither \<^verbatim>\<open>get_drive\<close> nor the
  trait \<^verbatim>\<open>get\<close> raise. For every ASCII name and every such reply, each of them
  returns the double nearest to \<open>n/65535\<close>, where \<open>n\<close> is the big-endian value of the
  bytes that are there (below 256, and 0 for the empty reply), and \<^verbatim>\<open>get_drive\<close> stores
  that value in the cache. So \<^verbatim>\<open>get_trust\<close> is not the only operation that turns an
  undersized reply into a value.
\<close>

theorem short_reply_decoded_as_is:
  "(encode_ascii name = Inr nb \<longrightarrow>
    tr (unit_log m) CMD_GET_DRIVE (ljust_cut 16 nb) = Inr raw \<longrightarrow>
    length raw < 2 \<longrightarrow>
      fst (get_drive tr m name) = Inr (Finite (fl_round (of_nat (from_bytes raw) / 65535))) \<and>
      cache (snd (get_drive tr m name)) =
        AList.update name (Finite (fl_round (of_nat (from_bytes raw) / 65535))) (cache m) \<and>
      from_bytes raw < 256) \<and>
   (encode_ascii trait = Inr tb \<longrightarrow>
    tr' lg CMD_TRAIT_GET (ljust_cut 16 tb) = Inr raw' \<longrightarrow>
    length raw' < 2 \<longrightarrow>
      fst (get_trait tr' lg trait) = Inr (Finite (fl_round (of_nat (from_bytes raw') / 65535))) \<and>
      from_bytes raw' < 256) \<and>
   fl_round (of_nat (from_bytes []) / 65535) = 0"
proof (intro conjI impI)
  assume a: "encode_ascii name = Inr nb"
    and b: "tr (unit_log m) CMD_GET_DRIVE (ljust_cut 16 nb) = Inr raw"
    and c: "length raw < 2"
  have whole: "take 2 raw = raw" using c by simp
  have small: "from_bytes raw < 256" by (rule from_bytes_short [OF c])
  then have u: "unit_of_int (from_bytes raw) = Finite (fl_round (of_nat (from_bytes raw) / 65535))"
    by (intro unit_of_int_finite(1)) simp
  show "fst (get_drive tr m name) = Inr (Finite (fl_round (of_nat (from_bytes raw) / 65535)))"
    by (simp add: get_drive_reply [where tr = tr and m = m, OF a b] whole u)
  show "cache (snd (get_drive tr m name)) =
        AList.update name (Finite (fl_round (of_nat (from_bytes raw) / 65535))) (cache m)"
    by (simp add: get_drive_reply [where tr = tr and m = m, OF a b] whole u)
  show "from_bytes raw < 256" by (rule small)
next
  assume a: "encode_ascii trait = Inr tb"
    and b: "tr' lg CMD_TRAIT_GET (ljust_cut 16 tb) = Inr raw'"
    and c: "length raw' < 2"
  have whole: "take 2 raw' = raw'" using c by simp
  have small: "from_bytes raw' < 256" by (rule from_bytes_short [OF c])
  then have u: "unit_of_int (from_bytes raw') = Finite (fl_round (of_nat (from_bytes raw') / 65535))"
    by (intro unit_of_int_finite(1)) simp
  show "fst (get_trait tr' lg trait) = Inr (Finite (fl_round (of_nat (from_bytes raw') / 65535)))"
    by (simp add: get_trait_reply [where tr = tr' and lg = lg, OF a b] whole u)
  show "from_bytes raw' < 256" by (rule small)
next
  show "fl_round (of_nat (from_bytes []) / 65535) = 0" by (simp add: from_bytes_def)
qed

theorem short_reply_decoded_as_is_witness:
  "fst (get_drive (reply_with [5]) fresh_model (str ''rest'')) =
     Inr (Finite (fl_round (of_nat (from_bytes [5]) / 65535))) \<and>
   cache (snd (get_drive (reply_with [5]) fresh_model (str ''rest''))) =
     AList.update (str ''rest'') (Finite (fl_round (of_nat (from_bytes [5]) / 65535)))
       (cache fresh_model) \<and>
   from_bytes [5] < 256 \<and>
   fst (get_trait (reply_with []) [] (str ''bold'')) =
     Inr (Finite (fl_round (of_nat (from_bytes []) / 65535))) \<and>
   from_bytes [] < 256 \<and>
   fl_round (of_nat (from_bytes []) / 65535) = 0"
proof -
  have b: "reply_with [5] (unit_log fresh_model) CMD_GET_DRIVE (ljust_cut 16 [114, 101, 115, 116]) =
             Inr [5]"
    by (simp add: reply_with_def)
  have c: "length [5 :: byte] < 2" by simp
  have b': "reply_with [] [] CMD_TRAIT_GET (ljust_cut 16 [98, 111, 108, 100]) = Inr []"
    by (simp add: reply_with_def)
  have c': "length ([] :: bytes) < 2" by simp
  show ?thesis
    using short_reply_decoded_as_is
      [where name = "str ''rest''" and nb = "[114, 101, 115, 116]" and tr = "reply_with [5]"
         and m = fresh_model and raw = "[5]" and trait = "str ''bold''"
         and tb = "[98, 111, 108, 100]" and tr' = "reply_with []" and lg = "[]" and raw' = "[]"]
      encode_ascii_rest b c encode_ascii_bold b' c'
    by blast
qed

section \<open>Quantisation of unit values\<close>

lemma fl_round_error_le:
  assumes "\<bar>x\<bar> < 2 powi (e + 53)" and "- 1074 \<le> e"
  shows "\<bar>fl_round x - x\<bar> \<le> 2 powi (e - 1)"
proof (cases "x = 0")
  case True
  then show ?thesis by simp
next
  case False
  have "quantum x \<le> e" by (rule quantum_le [OF False assms])
  then have "(2::rat) powi (quantum x - 1) \<le> 2 powi (e - 1)" by (simp add: pow2_le_iff)
  with fl_round_error [of x] show ?thesis by linarith
qed

lemma unit_product:
  assumes "0 \<le> v" and "v \<le> 1"
  shows "fl (v * 65535) = Finite (fl_round (v * 65535))"
    and "0 \<le> fl_round (v * 65535)"
    and "fl_round (v * 65535) \<le> 65535"
    and "of_int \<lfloor>v * 65535\<rfloor> \<le> fl_round (v * 65535)"
    and "fl_round (v * 65535) \<le> of_int \<lceil>v * 65535\<rceil>"
proof -
  have a: "of_int 0 \<le> v * 65535" using assms by simp
  have b: "v * 65535 \<le> of_int 65535" using assms by simp
  show "fl (v * 65535) = Finite (fl_round (v * 65535))"
    by (rule fl_in_range [OF a b]) simp_all
  show "0 \<le> fl_round (v * 65535)" using fl_round_range(1) [OF a b] by simp
  show "fl_round (v * 65535) \<le> 65535" using fl_round_range(2) [OF a b] by simp
  have f0: "0 \<le> \<lfloor>v * 65535\<rfloor>" using assms by simp
  have "\<lfloor>v * 65535\<rfloor> \<le> \<lfloor>65535 :: rat\<rfloor>" using b by (intro floor_mono) simp
  then have f1: "\<lfloor>v * 65535\<rfloor> \<le> 65535" by simp
  have c0: "0 \<le> \<lceil>v * 65535\<rceil>" using assms f0 by linarith
  have "\<lceil>v * 65535\<rceil> \<le> \<lceil>65535 :: rat\<rceil>" using b by (intro ceiling_mono) simp
  then have c1: "\<lceil>v * 65535\<rceil> \<le> 65535" by simp
  have lo: "of_int \<lfloor>v * 65535\<rfloor> \<le> v * 65535" by simp
  have hi: "v * 65535 \<le> of_int \<lceil>v * 65535\<rceil>" by simp
  show "of_int \<lfloor>v * 65535\<rfloor> \<le> fl_round (v * 65535)"
    using f0 f1 c0 c1 by (intro fl_round_range(1) [OF lo hi]) simp_all
  show "fl_round (v * 65535) \<le> of_int \<lceil>v * 65535\<rceil>"
    using f0 f1 c0 c1 by (intro fl_round_range(2) [OF lo hi]) simp_all
qed

lemma unit_wire:
  assumes "0 \<le> v" and "v \<le> 1"
  shows "py_int (fl (v * 65535)) = Inr \<lfloor>fl_round (v * 65535)\<rfloor>"
    and "0 \<le> \<lfloor>fl_round (v * 65535)\<rfloor>"
    and "\<lfloor>fl_round (v * 65535)\<rfloor> \<le> 65535"
    and "to_bytes \<lfloor>fl_round (v * 65535)\<rfloor> 2 = Inr (be_bytes 2 (nat \<lfloor>fl_round (v * 65535)\<rfloor>))"
    and "from_bytes (be_bytes 2 (nat \<lfloor>fl_round (v * 65535)\<rfloor>)) = nat \<lfloor>fl_round (v * 65535)\<rfloor>"
proof -
  note p = unit_product [OF assms]
  show "py_int (fl (v * 65535)) = Inr \<lfloor>fl_round (v * 65535)\<rfloor>"
    using p(2) by (simp add: p(1))
  show f0: "0 \<le> \<lfloor>fl_round (v * 65535)\<rfloor>" using p(2) by simp
  have "\<lfloor>fl_round (v * 65535)\<rfloor> \<le> \<lfloor>65535 :: rat\<rfloor>" using p(3) by (intro floor_mono)
  then show f1: "\<lfloor>fl_round (v * 65535)\<rfloor> \<le> 65535" by simp
  show "to_bytes \<lfloor>fl_round (v * 65535)\<rfloor> 2 = Inr (be_bytes 2 (nat \<lfloor>fl_round (v * 65535)\<rfloor>))"
    using f0 f1 by (intro to_bytes_ok) auto
  have "nat \<lfloor>fl_round (v * 65535)\<rfloor> < 65536" using f0 f1 by linarith
  then have "nat \<lfloor>fl_round (v * 65535)\<rfloor> < 256 ^ 2" by simp
  then show "from_bytes (be_bytes 2 (nat \<lfloor>fl_round (v * 65535)\<rfloor>)) = nat \<lfloor>fl_round (v * 65535)\<rfloor>"
    by (simp add: from_bytes_be_bytes)
qed

lemma set_drive_sends:
  assumes "0 \<le> v" and "v \<le> 1" and "encode_ascii name = Inr nb"
  shows "unit_log (snd (set_drive tr m name (Finite v))) =
           unit_log m @
             [(CMD_SET_DRIVE, ljust_cut 16 nb @ be_bytes 2 (nat \<lfloor>fl_round (v * 65535)\<rfloor>))]"
proof -
  note w = unit_wire [OF assms(1,2)]
  have r: "in_unit_range (Finite v)" using assms by simp
  show ?thesis
    unfolding set_drive_def using r assms(3)
    by (simp add: w(1) w(4) send_cmd_def Let_def split: sum.splits prod.splits)
qed

lemma set_trait_sends:
  assumes "0 \<le> v" and "v \<le> 1" and "encode_ascii trait = Inr tb"
  shows "snd (set_trait tr lg trait (Finite v)) =
           lg @ [(CMD_TRAIT_SET, ljust_cut 16 tb @ be_bytes 2 (nat \<lfloor>fl_round (v * 65535)\<rfloor>))]"
proof -
  note w = unit_wire [OF assms(1,2)]
  have r: "in_unit_range (Finite v)" using assms by simp
  show ?thesis
    unfolding set_trait_def using r assms(3)
    by (simp add: w(1) w(4) send_cmd_def Let_def split: sum.splits prod.splits)
qed

lemma product_three_eighths: "fl_round (196605 / 8) = 196605 / 8"
proof -
  have "\<bar>196605 / 8 :: rat\<bar> < 2 powi (- 3 + 53)" by simp
  then have q: "quantum (196605 / 8) \<le> - 3" by (intro quantum_le) simp_all
  show ?thesis
    by (rule fl_round_grid [OF q, where m = 196605]) simp
qed

lemma wire_three_eighths: "be_bytes 2 (nat \<lfloor>fl_round (196605 / 8)\<rfloor>) = [0x5F, 0xFF]"
proof -
  have "\<lfloor>196605 / 8 :: rat\<rfloor> = 24575" by (rule floor_unique) simp_all
  then show ?thesis by (simp add: product_three_eighths numeral_2_eq_2)
qed

text \<open>
  Claim C1 says that the two bytes sent by \<^verbatim>\<open>set_drive\<close> and by the trait \<^verbatim>\<open>set\<close> hold
  \<open>round(v * 65535)\<close>. The source computes \<^verbatim>\<open>int(v * 65535)\<close>, which truncates. At
  \<open>v = 0.375\<close> the product is \<open>24575.625\<close>, a double: both operations send \<open>5F FF\<close>,
  that is 24575, where rounding (half up or half to even) gives 24576.
\<close>

theorem unit_value_truncated_counterexample:
  "unit_log (snd (set_drive (reply_with []) fresh_model (str ''x'') (Finite (3/8)))) =
     [(CMD_SET_DRIVE, ljust_cut 16 [120] @ [0x5F, 0xFF])] \<and>
   snd (set_trait (reply_with []) [] (str ''x'') (Finite (3/8))) =
     [(CMD_TRAIT_SET, ljust_cut 16 [120] @ [0x5F, 0xFF])] \<and>
   from_bytes [0x5F, 0xFF] = 24575 \<and>
   round (3/8 * 65535 :: rat) = 24576 \<and>
   round_half_even (3/8 * 65535) = 24576"
proof -
  have a: "(0::rat) \<le> 3/8" and b: "(3/8::rat) \<le> 1" by simp_all
  have "unit_log (snd (set_drive (reply_with []) fresh_model (str ''x'') (Finite (3/8)))) =
     [(CMD_SET_DRIVE, ljust_cut 16 [120] @ [0x5F, 0xFF])]"
    by (simp add: set_drive_sends [OF a b encode_ascii_x] wire_three_eighths fresh_model_def)
  moreover have "snd (set_trait (reply_with []) [] (str ''x'') (Finite (3/8))) =
     [(CMD_TRAIT_SET, ljust_cut 16 [120] @ [0x5F, 0xFF])]"
    by (simp add: set_trait_sends [OF a b encode_ascii_x] wire_three_eighths)
  moreover have "from_bytes [0x5F, 0xFF] = 24575" by (simp add: from_bytes_def)
  moreover have "round (196605 / 8 :: rat) = 24576"
    by (rule round_unique) simp_all
  moreover have "round_half_even (196605 / 8) = 24576"
    by (rule rhe_eqI) simp
  ultimately show ?thesis by simp
qed

text \<open>
  Claim C1, amended. For every \<open>v\<close> with \<open>0 \<le> v \<le> 1\<close> and every ASCII name, the
  one command \<^verbatim>\<open>set_drive\<close> sends, and the one the trait \<^verbatim>\<open>set\<close> sends, is the 16-byte
  name field followed by two bytes whose big-endian value is \<^verbatim>\<open>int(v * 65535)\<close>: the
  double nearest to the product, truncated and not rounded. That integer lies between
  \<open>\<lfloor>v * 65535\<rfloor>\<close> and \<open>\<lceil>v * 65535\<rceil>\<close>.
\<close>

theorem unit_value_truncated:
  assumes "0 \<le> v" and "v \<le> 1" and "encode_ascii name = Inr nb"
  shows "unit_log (snd (set_drive tr m name (Finite v))) =
           unit_log m @
             [(CMD_SET_DRIVE, ljust_cut 16 nb @ be_bytes 2 (nat \<lfloor>fl_round (v * 65535)\<rfloor>))] \<and>
         snd (set_trait tr lg name (Finite v)) =
           lg @ [(CMD_TRAIT_SET, ljust_cut 16 nb @ be_bytes 2 (nat \<lfloor>fl_round (v * 65535)\<rfloor>))] \<and>
         length (be_bytes 2 (nat \<lfloor>fl_round (v * 65535)\<rfloor>)) = 2 \<and>
         int (from_bytes (be_bytes 2 (nat \<lfloor>fl_round (v * 65535)\<rfloor>))) = \<lfloor>fl_round (v * 65535)\<rfloor> \<and>
         \<lfloor>v * 65535\<rfloor> \<le> \<lfloor>fl_round (v * 65535)\<rfloor> \<and>
         \<lfloor>fl_round (v * 65535)\<rfloor> \<le> \<lceil>v * 65535\<rceil>"
proof -
  note p = unit_product [OF assms(1,2)]
  note w = unit_wire [OF assms(1,2)]
  have "\<lfloor>v * 65535\<rfloor> \<le> \<lfloor>fl_round (v * 65535)\<rfloor>"
    using p(4) by (simp add: le_floor_iff)
  moreover have "\<lfloor>fl_round (v * 65535)\<rfloor> \<le> \<lceil>v * 65535\<rceil>"
    using p(5) by (simp add: floor_le_iff)
  moreover have "int (from_bytes (be_bytes 2 (nat \<lfloor>fl_round (v * 65535)\<rfloor>))) =
      \<lfloor>fl_round (v * 65535)\<rfloor>"
    using w(2) by (simp add: w(5))
  ultimately show ?thesis
    by (simp add: set_drive_sends [OF assms] set_trait_sends [OF assms] length_be_bytes)
qed

text \<open>
  The amended claim at the double \<open>0.6\<close>, which is \<open>5404319552844595 / 2\<^sup>5\<^sup>3\<close>: the exact
  product \<open>39320.99999999999854\<dots>\<close> is not a double, the multiplication delivers
  \<open>39321.0\<close>, and the bytes sent are \<open>99 99\<close>.
\<close>

theorem unit_value_truncated_witness:
  "unit_log (snd (set_drive (reply_with []) fresh_model (str ''x'')
      (Finite (5404319552844595 / 2 ^ 53)))) =
     unit_log fresh_model @
       [(CMD_SET_DRIVE, ljust_cut 16 [120] @
          be_bytes 2 (nat \<lfloor>fl_round (5404319552844595 / 2 ^ 53 * 65535)\<rfloor>))] \<and>
   snd (set_trait (reply_with []) [] (str ''x'') (Finite (5404319552844595 / 2 ^ 53))) =
     [] @ [(CMD_TRAIT_SET, ljust_cut 16 [120] @
          be_bytes 2 (nat \<lfloor>fl_round (5404319552844595 / 2 ^ 53 * 65535)\<rfloor>))] \<and>
   length (be_bytes 2 (nat \<lfloor>fl_round (5404319552844595 / 2 ^ 53 * 65535)\<rfloor>)) = 2 \<and>
   int (from_bytes (be_bytes 2 (nat \<lfloor>fl_round (5404319552844595 / 2 ^ 53 * 65535)\<rfloor>))) =
     \<lfloor>fl_round (5404319552844595 / 2 ^ 53 * 65535)\<rfloor> \<and>
   \<lfloor>5404319552844595 / 2 ^ 53 * 65535 :: rat\<rfloor> \<le>
     \<lfloor>fl_round (5404319552844595 / 2 ^ 53 * 65535)\<rfloor> \<and>
   \<lfloor>fl_round (5404319552844595 / 2 ^ 53 * 65535)\<rfloor> \<le>
     \<lceil>5404319552844595 / 2 ^ 53 * 65535 :: rat\<rceil> \<and>
   fl_round (5404319552844595 / 2 ^ 53 * 65535) = 39321 \<and>
   be_bytes 2 39321 = [0x99, 0x99]"
proof -
  have a: "(0::rat) \<le> 5404319552844595 / 2 ^ 53" by simp
  have b: "(5404319552844595 / 2 ^ 53 :: rat) \<le> 1" by simp
  have "fl_round (5404319552844595 / 2 ^ 53 * 65535) = of_int 5404237089472512 * 2 powi (15 - 52)"
    by (rule fl_round_valueI) simp_all
  then have c: "fl_round (5404319552844595 / 2 ^ 53 * 65535) = 39321" by simp
  have d: "be_bytes 2 39321 = [0x99, 0x99]" by (simp add: numeral_2_eq_2)
  show ?thesis
    using unit_value_truncated [OF a b encode_ascii_x, of "reply_with []" fresh_model "[]"] c d
    by blast
qed

section \<open>Round trip of a unit value\<close>

lemma round_trip_upper:
  assumes "0 \<le> v" and "v \<le> 1" and n: "n = \<lfloor>fl_round (v * 65535)\<rfloor>"
  shows "fl_round (of_int n / 65535) - v \<le> 1 / 65535"
proof -
  let ?x = "v * 65535"
  let ?q = "of_int n / 65535 :: rat"
  note w = unit_wire [OF assms(1,2)]
  have n0: "0 \<le> n" and n1: "n \<le> 65535" using w(2,3) n by simp_all
  have "\<bar>?x\<bar> < 2 powi (- 37 + 53)" using assms(1,2) by simp
  then have "\<bar>fl_round ?x - ?x\<bar> \<le> 2 powi (- 37 - 1)" by (rule fl_round_error_le) simp
  then have ex: "\<bar>fl_round ?x - ?x\<bar> \<le> 2 powi (- 38)" by simp
  have "of_int n \<le> fl_round ?x" using n by simp
  with ex have nx: "of_int n - ?x \<le> 2 powi (- 38)" by linarith
  have q0: "0 \<le> ?q" using n0 by simp
  have "(of_int n :: rat) \<le> of_int 65535" using n1 by (simp only: of_int_le_iff)
  then have q1: "?q \<le> 1" by simp
  have "\<bar>?q\<bar> < 2 powi (- 52 + 53)" using q0 q1 by simp
  then have "\<bar>fl_round ?q - ?q\<bar> \<le> 2 powi (- 52 - 1)" by (rule fl_round_error_le) simp
  then have eq: "\<bar>fl_round ?q - ?q\<bar> \<le> 2 powi (- 53)" by simp
  have "?q - v = (of_int n - ?x) / 65535" by (simp add: diff_divide_distrib)
  also have "\<dots> \<le> 2 powi (- 38) / 65535" using nx by (simp add: divide_right_mono)
  finally have "?q - v \<le> 2 powi (- 38) / 65535" .
  moreover have "fl_round ?q - ?q \<le> 2 powi (- 53)" using eq by linarith
  moreover have "2 powi (- 53) + 2 powi (- 38) / 65535 \<le> (1 / 65535 :: rat)" by simp
  ultimately show ?thesis by linarith
qed

lemma round_trip_lower:
  assumes "0 \<le> v" and "v \<le> 1" and n: "n = \<lfloor>fl_round (v * 65535)\<rfloor>"
  shows "v - fl_round (of_int n / 65535) \<le> 1 / 65535"
proof -
  let ?x = "v * 65535"
  let ?y = "fl_round ?x"
  let ?q = "of_int n / 65535 :: rat"
  let ?d = "fl_round ?q"
  note w = unit_wire [OF assms(1,2)]
  have n0: "0 \<le> n" and n1: "n \<le> 65535" using w(2,3) n by simp_all
  have x0: "0 \<le> ?x" and x1: "?x \<le> 65535" using assms(1,2) by simp_all
  have q0: "0 \<le> ?q" using n0 by simp
  have "(of_int n :: rat) \<le> of_int 65535" using n1 by (simp only: of_int_le_iff)
  then have q1: "?q \<le> 1" by simp
  have "\<bar>?q\<bar> < 2 powi (- 52 + 53)" using q0 q1 by simp
  then have "\<bar>?d - ?q\<bar> \<le> 2 powi (- 52 - 1)" by (rule fl_round_error_le) simp
  then have eq: "\<bar>?d - ?q\<bar> \<le> 2 powi (- 53)" by simp
  have y_lt: "?y < of_int (n + 1)" using n by linarith
  show ?thesis
  proof (cases "?x < of_int n")
    case True
    then have "v < ?q" by (simp add: pos_less_divide_eq)
    moreover have "?q - ?d \<le> 2 powi (- 53)" using eq by linarith
    moreover have "2 powi (- 53) \<le> (1 / 65535 :: rat)" by simp
    ultimately show ?thesis by linarith
  next
    case False
    then have nx: "of_int n \<le> ?x" by simp
    consider "n = 0" | "n = 65535" | "1 \<le> n" "n \<le> 65534" using n0 n1 by linarith
    then show ?thesis
    proof cases
      case 1
      have "?x < 1"
      proof (rule ccontr)
        assume "\<not> ?x < 1"
        then have a: "of_int 1 \<le> ?x" by simp
        have b: "?x \<le> of_int 65535" using x1 by simp
        have "of_int 1 \<le> ?y" by (rule fl_round_range(1) [OF a b]) simp_all
        with y_lt 1 show False by simp
      qed
      then have "v < 1 / 65535" by (simp add: pos_less_divide_eq)
      then show ?thesis using 1 by simp
    next
      case 2
      have a: "of_int 1 \<le> (1::rat)" by simp
      have b: "(1::rat) \<le> of_int 1" by simp
      have "of_int 1 \<le> fl_round 1" by (rule fl_round_range(1) [OF a b]) simp_all
      moreover have "fl_round 1 \<le> of_int 1" by (rule fl_round_range(2) [OF a b]) simp_all
      ultimately have "fl_round 1 = 1" by simp
      then have "?d = 1" using 2 by simp
      then show ?thesis using assms(2) by simp
    next
      case 3
      define j where "j = expo ?q"
      have qpos: "0 < ?q" using 3(1) by simp
      then have qnz: "?q \<noteq> 0" by simp
      have "(of_int n :: rat) \<le> of_int 65534" using 3(2) by (simp only: of_int_le_iff)
      then have "?q < 1" by simp
      then have "\<bar>?q\<bar> < 2 powi 0" using q0 by simp
      then have "expo ?q < 0" by (rule expo_less [OF qnz])
      then have j_neg: "j < 0" by (simp add: j_def)
      have "(of_int 1 :: rat) \<le> of_int n" using 3(1) by (simp only: of_int_le_iff)
      then have "2 powi (- 16) \<le> ?q" by simp
      then have "2 powi (- 16) \<le> \<bar>?q\<bar>" using q0 by simp
      then have "- 16 \<le> expo ?q" by (rule expo_ge)
      then have j_lo: "- 16 \<le> j" by (simp add: j_def)
      have j_le: "2 powi j \<le> ?q" using expo_bounds(1) [OF qnz] q0 by (simp add: j_def)
      have quant_q: "quantum ?q = j - 52" using j_lo by (simp add: quantum_def j_def)
      have "\<bar>?d - ?q\<bar> \<le> 2 powi (quantum ?q - 1)" by (rule fl_round_error)
      then have dq: "?q - ?d \<le> 2 powi (j - 53)" by (simp add: quant_q abs_le_iff)
      have p16: "(2::rat) powi (j + 16) = 2 powi j * 65536"
        by (simp add: power_int_add)
      define N :: int where "N = 2 ^ nat (j + 16)"
      have pN: "(2::rat) powi (j + 16) = of_int N"
        using j_lo by (simp add: power_int_def N_def)
      have "(2::rat) powi j < 2 powi 0" using j_neg by (simp only: pow2_less_iff)
      then have pj1: "(2::rat) powi j < 1" by simp
      have "of_int n = ?q * 65535" by simp
      moreover have "2 powi j * 65535 \<le> ?q * 65535" using j_le by (simp only: mult_le_cancel_right) simp
      ultimately have "2 powi j * 65535 \<le> (of_int n :: rat)" by simp
      then have "2 powi (j + 16) - 2 powi j \<le> (of_int n :: rat)" by (simp add: p16)
      then have "(of_int N :: rat) - 1 < of_int n" using pj1 pN by linarith
      then have "(of_int (N - 1) :: rat) < of_int n" by simp
      then have "N - 1 < n" by (simp only: of_int_less_iff)
      then have "N \<le> n" by simp
      then have "(of_int N :: rat) \<le> of_int n" by (simp only: of_int_le_iff)
      then have "2 powi (j + 16) \<le> ?x" using nx pN by linarith
      then have "2 powi (j + 16) \<le> \<bar>?x\<bar>" using x0 by simp
      then have "j + 16 \<le> expo ?x" by (rule expo_ge)
      then have quant_lo: "j - 36 \<le> quantum ?x" by (simp add: quantum_def)
      have xnz: "?x \<noteq> 0" using nx 3(1) by auto
      have "\<bar>?x\<bar> < 2 powi (0 + 53)" using x0 x1 by simp
      then have quant_hi: "quantum ?x \<le> 0" by (intro quantum_le [OF xnz]) simp_all
      have "?y < of_int (n + 1) * 2 powi 0" using y_lt by simp
      then have "?x \<le> of_int (n + 1) * 2 powi 0 - 2 powi (quantum ?x - 1)"
        by (rule fl_round_below_grid [OF quant_hi])
      then have gap: "2 powi (quantum ?x - 1) \<le> of_int n + 1 - ?x" by simp
      have "(2::rat) powi (j - 37) \<le> 2 powi (quantum ?x - 1)"
        using quant_lo by (simp only: pow2_le_iff)
      with gap have gap': "2 powi (j - 37) \<le> of_int n + 1 - ?x" by linarith
      have "(2::rat) powi (j - 37) = 2 powi (j - 53) * 65536"
        using power_int_add [of "2::rat" "j - 53" 16] by simp
      then have "65535 * (2::rat) powi (j - 53) \<le> 2 powi (j - 37)" by simp
      moreover have "65535 * (?q - ?d) \<le> 65535 * 2 powi (j - 53)" using dq by simp
      ultimately have "65535 * (?q - ?d) \<le> of_int n + 1 - ?x" using gap' by linarith
      moreover have "65535 * ?q = of_int n" by simp
      ultimately have "65535 * (v - ?d) \<le> 1" by (simp add: algebra_simps)
      then show ?thesis by (simp add: algebra_simps)
    qed
  qed
qed

text \<open>
  Claim C4. For every \<open>v\<close> in \<open>[0.0, 1.0]\<close>: when the unit answers \<^verbatim>\<open>GET_DRIVE\<close> with the
  two value bytes that \<^verbatim>\<open>set_drive\<close> has just sent for \<open>v\<close>, \<^verbatim>\<open>get_drive\<close> returns a
  float within \<open>1/65535\<close> of \<open>v\<close>. Both the product \<^verbatim>\<open>weight * 65535\<close> and the quotient
  \<^verbatim>\<open>n / 65535.0\<close> are rounded to the nearest double.
\<close>

theorem unit_round_trip:
  assumes "0 \<le> v" and "v \<le> 1" and "encode_ascii name = Inr nb"
    and "tr (unit_log (snd (set_drive tr m name (Finite v)))) CMD_GET_DRIVE (ljust_cut 16 nb) =
           Inr (drop 16 (snd (last (unit_log (snd (set_drive tr m name (Finite v)))))))"
  shows "\<exists>d. fst (get_drive tr (snd (set_drive tr m name (Finite v))) name) = Inr (Finite d) \<and>
             \<bar>d - v\<bar> \<le> 1 / 65535"
proof -
  let ?n = "\<lfloor>fl_round (v * 65535)\<rfloor>"
  let ?m' = "snd (set_drive tr m name (Finite v))"
  let ?d = "fl_round (of_int ?n / 65535)"
  note w = unit_wire [OF assms(1,2)]
  have lg: "unit_log ?m' = unit_log m @ [(CMD_SET_DRIVE, ljust_cut 16 nb @ be_bytes 2 (nat ?n))]"
    by (rule set_drive_sends [OF assms(1-3)])
  have sent: "drop 16 (snd (last (unit_log ?m'))) = be_bytes 2 (nat ?n)"
    by (simp add: lg length_ljust_cut)
  have reply: "tr (unit_log ?m') CMD_GET_DRIVE (ljust_cut 16 nb) = Inr (be_bytes 2 (nat ?n))"
    using assms(4) sent by simp
  have whole: "take 2 (be_bytes 2 (nat ?n)) = be_bytes 2 (nat ?n)"
    by (simp add: length_be_bytes)
  have small: "nat ?n < 65536" using w(2,3) by linarith
  have cast: "(of_nat (nat ?n) :: rat) = of_int ?n" using w(2) by simp
  have "unit_of_int (nat ?n) = Finite (fl_round (of_nat (nat ?n) / 65535))"
    by (rule unit_of_int_finite(1) [OF small])
  then have val: "unit_of_int (nat ?n) = Finite ?d" by (simp only: cast)
  have "fst (get_drive tr ?m' name) = Inr (unit_of_int (from_bytes (take 2 (be_bytes 2 (nat ?n)))))"
    by (simp add: get_drive_reply [where tr = tr and m = ?m', OF assms(3) reply])
  then have ret: "fst (get_drive tr ?m' name) = Inr (Finite ?d)"
    by (simp only: whole w(5) val)
  have "?d - v \<le> 1 / 65535" by (rule round_trip_upper [OF assms(1,2) refl])
  moreover have "v - ?d \<le> 1 / 65535" by (rule round_trip_lower [OF assms(1,2) refl])
  ultimately have "\<bar>?d - v\<bar> \<le> 1 / 65535" by linarith
  with ret show ?thesis by blast
qed

text \<open>
  The round trip of the double \<open>0.6\<close>: the unit is sent \<open>99 99\<close>, and the double nearest
  to \<open>39321/65535\<close> is \<open>0.6\<close> again.
\<close>

theorem unit_round_trip_witness:
  "(\<exists>d. fst (get_drive echo_unit
              (snd (set_drive echo_unit fresh_model (str ''x'') (Finite (5404319552844595 / 2 ^ 53))))
              (str ''x'')) = Inr (Finite d) \<and>
        \<bar>d - 5404319552844595 / 2 ^ 53\<bar> \<le> 1 / 65535) \<and>
   fl_round (39321 / 65535) = 5404319552844595 / 2 ^ 53"
proof -
  have a: "(0::rat) \<le> 5404319552844595 / 2 ^ 53" by simp
  have b: "(5404319552844595 / 2 ^ 53 :: rat) \<le> 1" by simp
  have lg: "unit_log (snd (set_drive echo_unit fresh_model (str ''x'')
                (Finite (5404319552844595 / 2 ^ 53)))) =
      unit_log fresh_model @
        [(CMD_SET_DRIVE, ljust_cut 16 [120] @
            be_bytes 2 (nat \<lfloor>fl_round (5404319552844595 / 2 ^ 53 * 65535)\<rfloor>))]"
    by (rule set_drive_sends [OF a b encode_ascii_x])
  have d: "echo_unit (unit_log (snd (set_drive echo_unit fresh_model (str ''x'')
                (Finite (5404319552844595 / 2 ^ 53)))))
             CMD_GET_DRIVE (ljust_cut 16 [120]) =
           Inr (drop 16 (snd (last (unit_log (snd (set_drive echo_unit fresh_model (str ''x'')
                (Finite (5404319552844595 / 2 ^ 53))))))))"
    unfolding lg by (simp add: echo_unit_def)
  have "fl_round (39321 / 65535) = of_int 5404319552844595 * 2 powi (- 1 - 52)"
    by (rule fl_round_valueI) simp_all
  then have e: "fl_round (39321 / 65535) = 5404319552844595 / 2 ^ 53" by simp
  show ?thesis
    using unit_round_trip [OF a b encode_ascii_x d] e by blast
qed

section \<open>Episodic records\<close>

lemma fl_exact:
  assumes "x = of_int m / 2 ^ k" and "\<bar>m\<bar> < 2 ^ 53" and "k \<le> 1074"
  shows "fl x = Finite x"
proof -
  have xm: "x = of_int m * 2 powi (- int k)" using assms(1) by (simp add: power_int_minus_divide)
  have ax: "\<bar>x\<bar> = \<bar>of_int m\<bar> / 2 ^ k" using assms(1) by simp
  have m53: "\<bar>of_int m :: rat\<bar> < 2 ^ 53"
  proof -
    have "(of_int \<bar>m\<bar> :: rat) < of_int (2 ^ 53)" using assms(2) by (simp only: of_int_less_iff)
    then show ?thesis by simp
  qed
  have r: "fl_round x = x"
  proof (cases "x = 0")
    case True
    then show ?thesis by simp
  next
    case False
    have "\<bar>x\<bar> < 2 ^ 53 / 2 ^ k" using m53 by (simp add: ax divide_strict_right_mono)
    also have "\<dots> = 2 powi (- int k + 53)"
      using power_int_add [of "2::rat" "- int k" 53] by (simp add: power_int_minus_divide)
    finally have "\<bar>x\<bar> < 2 powi (- int k + 53)" .
    then have "quantum x \<le> - int k" using assms(3) by (intro quantum_le [OF False]) simp_all
    then show ?thesis using xm by (rule fl_round_grid)
  qed
  have "1 \<le> (2::rat) ^ k" by simp
  then have "\<bar>x\<bar> \<le> \<bar>of_int m\<bar>" unfolding ax by (simp add: divide_le_eq mult_le_cancel_left1)
  then have "\<bar>x\<bar> \<le> DBL_MAX" using m53 DBL_MAX_big by linarith
  then show ?thesis using r by (intro fl_finite [THEN trans]) simp_all
qed

lemma event_ascii:
  assumes "ev \<in> set EVENT_NAMES"
  shows "encode_ascii ev = Inr (map of_nat ev)"
proof -
  have "list_all (\<lambda>e. list_all (\<lambda>c. c < 128) e) EVENT_NAMES"
    by (simp add: EVENT_NAMES_def str_def)
  then have "list_all (\<lambda>c. c < 128) ev" using assms by (simp add: list_all_iff)
  then show ?thesis by (simp add: encode_ascii_def)
qed

lemma encode_sends:
  assumes "ev \<in> set EVENT_NAMES"
    and "py_int (case timestamp of None \<Rightarrow> now | Some t \<Rightarrow> if truthy t then t else now) = Inr stamp"
    and "hash_uid sha uid = Inr h"
    and "py_int (fl_op (\<lambda>r. r * 65535) (fl_op (\<lambda>r. r / 2) (fl_op (\<lambda>r. r + 1) val))) = Inr k"
    and "to_bytes k 2 = Inr vb"
    and "to_bytes stamp 4 = Inr tb"
    and "tr lg CMD_ENCODE (ljust_cut 24 (map of_nat ev) @ h @ vb @ tb) = Inr reply"
  shows "encode sha now tr lg ev uid val timestamp =
           (Inr (), lg @ [(CMD_ENCODE, ljust_cut 24 (map of_nat ev) @ h @ vb @ tb)])"
  unfolding encode_def
  using assms by (simp add: event_ascii send_cmd_def Let_def)

lemma encode_value_overflow:
  assumes "ev \<in> set EVENT_NAMES"
    and "py_int (case timestamp of None \<Rightarrow> now | Some t \<Rightarrow> if truthy t then t else now) = Inr stamp"
    and "hash_uid sha uid = Inr h"
    and "py_int (fl_op (\<lambda>r. r * 65535) (fl_op (\<lambda>r. r / 2) (fl_op (\<lambda>r. r + 1) val))) = Inr k"
    and "to_bytes k 2 = Inl e"
  shows "encode sha now tr lg ev uid val timestamp = (Inl e, lg)"
  unfolding encode_def
  using assms by (simp add: event_ascii Let_def)

lemma be_bytes_numeral:
  "be_bytes (numeral k) n = be_bytes (pred_numeral k) (n div 256) @ [of_nat (n mod 256)]"
  by (simp only: numeral_eq_Suc [of k] be_bytes.simps)

lemma fed_known: "str ''fed'' \<in> set EVENT_NAMES"
  by (simp add: EVENT_NAMES_def)

lemma fed_bytes: "map of_nat (str ''fed'') = ([102, 101, 100] :: bytes)"
  by (simp add: str_def)

lemma hash_alice: "hash_uid stub_digest (str ''alice'') = Inr (replicate 8 7)"
  by (simp add: hash_uid_def encode_utf8_def str_def stub_digest_def)

lemma clock_1000: "py_int (case None of None \<Rightarrow> Finite 1000 | Some t \<Rightarrow> if truthy t then t else Finite 1000) = Inr 1000"
  by simp

lemma bytes_1000: "to_bytes 1000 4 = Inr [0, 0, 3, 0xE8]"
  by (simp add: to_bytes_def be_bytes_numeral)

lemma valence_just_above_one:
  "py_int (fl_op (\<lambda>r. r * 65535) (fl_op (\<lambda>r. r / 2) (fl_op (\<lambda>r. r + 1) (Finite (65537 / 65536))))) =
     Inr 65535"
proof -
  have a: "fl (131073 / 65536) = Finite (131073 / 65536)"
    by (rule fl_exact [where m = 131073 and k = 16]) simp_all
  have b: "fl (131073 / 131072) = Finite (131073 / 131072)"
    by (rule fl_exact [where m = 131073 and k = 17]) simp_all
  have c: "fl (8589869055 / 131072) = Finite (8589869055 / 131072)"
    by (rule fl_exact [where m = 8589869055 and k = 17]) simp_all
  have d: "\<lfloor>8589869055 / 131072 :: rat\<rfloor> = 65535" by (rule floor_unique) simp_all
  show ?thesis by (simp add: a b c d)
qed

lemma valence_just_below_minus_one:
  "py_int (fl_op (\<lambda>r. r * 65535) (fl_op (\<lambda>r. r / 2) (fl_op (\<lambda>r. r + 1) (Finite (- 65537 / 65536))))) =
     Inr 0"
proof -
  have a: "fl (- (1 / 65536)) = Finite (- (1 / 65536))"
    by (rule fl_exact [where m = "- 1" and k = 16]) simp_all
  have b: "fl (- (1 / 131072)) = Finite (- (1 / 131072))"
    by (rule fl_exact [where m = "- 1" and k = 17]) simp_all
  have c: "fl (- (65535 / 131072)) = Finite (- (65535 / 131072))"
    by (rule fl_exact [where m = "- 65535" and k = 17]) simp_all
  have d: "\<lceil>- (65535 / 131072) :: rat\<rceil> = 0" by (rule ceiling_unique) simp_all
  show ?thesis by (simp add: a b c d)
qed

lemma valence_three_halves:
  "py_int (fl_op (\<lambda>r. r * 65535) (fl_op (\<lambda>r. r / 2) (fl_op (\<lambda>r. r + 1) (Finite (3 / 2))))) =
     Inr 81918"
proof -
  have a: "fl (5 / 2) = Finite (5 / 2)"
    by (rule fl_exact [where m = 5 and k = 1]) simp_all
  have b: "fl (5 / 4) = Finite (5 / 4)"
    by (rule fl_exact [where m = 5 and k = 2]) simp_all
  have c: "fl (327675 / 4) = Finite (327675 / 4)"
    by (rule fl_exact [where m = 327675 and k = 2]) simp_all
  have d: "\<lfloor>327675 / 4 :: rat\<rfloor> = 81918" by (rule floor_unique) simp_all
  show ?thesis by (simp add: a b c d)
qed

text \<open>
  Claim C2 says that \<^verbatim>\<open>MemoryStore.encode\<close> raises a validation error, before any
  transport call, for every valence outside \<open>[-1.0, 1.0]\<close>. The source has no such
  check. For the valence \<open>1.0000152587890625\<close>, which is \<open>1 + 2\<^sup>-\<^sup>1\<^sup>6\<close>, the call
  \<^verbatim>\<open>encode("fed", "alice", 1.0000152587890625)\<close> at clock time 1000 sends one \<^verbatim>\<open>ENCODE\<close>
  command whose value field is \<open>FF FF\<close> and returns normally; for \<open>- 1 - 2\<^sup>-\<^sup>1\<^sup>6\<close> it
  sends the value field \<open>00 00\<close>. Further out, at \<open>1.5\<close>, nothing is sent, and the error
  is the \<^verbatim>\<open>OverflowError\<close> of \<^verbatim>\<open>to_bytes\<close>, which is not a \<^verbatim>\<open>ValueError\<close>.
\<close>

theorem encode_sends_out_of_range_valence:
  "encode stub_digest (Finite 1000) (reply_with []) [] (str ''fed'') (str ''alice'')
       (Finite (65537 / 65536)) None =
     (Inr (), [(CMD_ENCODE, ljust_cut 24 [102, 101, 100] @ replicate 8 7 @ [0xFF, 0xFF] @ [0, 0, 3, 0xE8])]) \<and>
   encode stub_digest (Finite 1000) (reply_with []) [] (str ''fed'') (str ''alice'')
       (Finite (- 65537 / 65536)) None =
     (Inr (), [(CMD_ENCODE, ljust_cut 24 [102, 101, 100] @ replicate 8 7 @ [0, 0] @ [0, 0, 3, 0xE8])]) \<and>
   encode stub_digest (Finite 1000) (reply_with []) [] (str ''fed'') (str ''alice'')
       (Finite (3 / 2)) None =
     (Inl OverflowError, [])"
proof -
  have hi: "to_bytes 65535 2 = Inr [0xFF, 0xFF]" by (simp add: to_bytes_def be_bytes_numeral)
  have lo: "to_bytes 0 2 = Inr [0, 0]" by (simp add: to_bytes_def be_bytes_numeral)
  have far: "to_bytes 81918 2 = Inl OverflowError" by (simp add: to_bytes_def)
  have r: "\<And>p. reply_with [] [] CMD_ENCODE p = Inr []" by (simp add: reply_with_def)
  have "encode stub_digest (Finite 1000) (reply_with []) [] (str ''fed'') (str ''alice'')
       (Finite (65537 / 65536)) None =
     (Inr (), [] @ [(CMD_ENCODE, ljust_cut 24 (map of_nat (str ''fed'')) @ replicate 8 7 @ [0xFF, 0xFF] @ [0, 0, 3, 0xE8])])"
    by (rule encode_sends [where tr = "reply_with []" and lg = "[]",
          OF fed_known clock_1000 hash_alice valence_just_above_one hi bytes_1000 r])
  moreover have "encode stub_digest (Finite 1000) (reply_with []) [] (str ''fed'') (str ''alice'')
       (Finite (- 65537 / 65536)) None =
     (Inr (), [] @ [(CMD_ENCODE, ljust_cut 24 (map of_nat (str ''fed'')) @ replicate 8 7 @ [0, 0] @ [0, 0, 3, 0xE8])])"
    by (rule encode_sends [where tr = "reply_with []" and lg = "[]",
          OF fed_known clock_1000 hash_alice valence_just_below_minus_one lo bytes_1000 r])
  moreover have "encode stub_digest (Finite 1000) (reply_with []) [] (str ''fed'') (str ''alice'')
       (Finite (3 / 2)) None = (Inl OverflowError, [])"
    by (rule encode_value_overflow [OF fed_known clock_1000 hash_alice valence_three_halves far])
  ultimately show ?thesis by (simp add: fed_bytes)
qed

lemma valence_wire:
  assumes "- 1 \<le> v" and "v \<le> 1"
  shows "py_int (fl_op (\<lambda>r. r * 65535) (fl_op (\<lambda>r. r / 2) (fl_op (\<lambda>r. r + 1) (Finite v)))) =
           Inr \<lfloor>fl_round (fl_round (fl_round (v + 1) / 2) * 65535)\<rfloor>"
    and "to_bytes \<lfloor>fl_round (fl_round (fl_round (v + 1) / 2) * 65535)\<rfloor> 2 =
           Inr (be_bytes 2 (nat \<lfloor>fl_round (fl_round (fl_round (v + 1) / 2) * 65535)\<rfloor>))"
proof -
  let ?a = "fl_round (v + 1)"
  let ?b = "fl_round (?a / 2)"
  have a0: "of_int 0 \<le> v + 1" and a1: "v + 1 \<le> of_int 2" using assms by simp_all
  have fa: "fl (v + 1) = Finite ?a" by (rule fl_in_range [OF a0 a1]) simp_all
  have ra: "0 \<le> ?a" "?a \<le> 2"
    using fl_round_range(1) [OF a0 a1] fl_round_range(2) [OF a0 a1] by simp_all
  have b0: "of_int 0 \<le> ?a / 2" and b1: "?a / 2 \<le> of_int 1" using ra by simp_all
  have fb: "fl (?a / 2) = Finite ?b" by (rule fl_in_range [OF b0 b1]) simp_all
  have rb: "0 \<le> ?b" "?b \<le> 1"
    using fl_round_range(1) [OF b0 b1] fl_round_range(2) [OF b0 b1] by simp_all
  note w = unit_wire [OF rb]
  show "py_int (fl_op (\<lambda>r. r * 65535) (fl_op (\<lambda>r. r / 2) (fl_op (\<lambda>r. r + 1) (Finite v)))) =
           Inr \<lfloor>fl_round (?b * 65535)\<rfloor>"
    by (simp add: fa fb w(1))
  show "to_bytes \<lfloor>fl_round (?b * 65535)\<rfloor> 2 = Inr (be_bytes 2 (nat \<lfloor>fl_round (?b * 65535)\<rfloor>))"
    by (rule w(4))
qed

lemma encode_stamp_overflow:
  assumes "ev \<in> set EVENT_NAMES"
    and "py_int (case timestamp of None \<Rightarrow> now | Some t \<Rightarrow> if truthy t then t else now) = Inr stamp"
    and "hash_uid sha uid = Inr h"
    and "py_int (fl_op (\<lambda>r. r * 65535) (fl_op (\<lambda>r. r / 2) (fl_op (\<lambda>r. r + 1) val))) = Inr k"
    and "to_bytes k 2 = Inr vb"
    and "to_bytes stamp 4 = Inl e"
  shows "encode sha now tr lg ev uid val timestamp = (Inl e, lg)"
  unfolding encode_def
  using assms by (simp add: event_ascii Let_def)

lemma touch_head_known: "str ''touch_head'' \<in> set EVENT_NAMES"
  by (simp add: EVENT_NAMES_def)

lemma touch_head_bytes:
  "map of_nat (str ''touch_head'') = ([116, 111, 117, 99, 104, 95, 104, 101, 97, 100] :: bytes)"
  by (simp add: str_def)

lemma valence_half:
  "py_int (fl_op (\<lambda>r. r * 65535) (fl_op (\<lambda>r. r / 2) (fl_op (\<lambda>r. r + 1) (Finite (1 / 2))))) =
     Inr 49151"
proof -
  have a: "fl (3 / 2) = Finite (3 / 2)"
    by (rule fl_exact [where m = 3 and k = 1]) simp_all
  have b: "fl (3 / 4) = Finite (3 / 4)"
    by (rule fl_exact [where m = 3 and k = 2]) simp_all
  have c: "fl (196605 / 4) = Finite (196605 / 4)"
    by (rule fl_exact [where m = 196605 and k = 2]) simp_all
  have d: "\<lfloor>196605 / 4 :: rat\<rfloor> = 49151" by (rule floor_unique) simp_all
  show ?thesis by (simp add: a b c d)
qed

lemma bytes_49151: "to_bytes 49151 2 = Inr [0xBF, 0xFF]"
  by (simp add: to_bytes_def be_bytes_numeral)

section \<open>The timestamp of an episodic record\<close>

text \<open>
  Claim C10 says that a timestamp of exactly 0 is replaced by the current time, and
  that the wire field equals \<^verbatim>\<open>int(t)\<close> only for, and for every, supplied timestamp \<open>t\<close>
  with \<^verbatim>\<open>int(t) != 0\<close>. The test of the source is on \<open>t\<close>, not on \<^verbatim>\<open>int(t)\<close>: the
  timestamp \<open>0.5\<close> is truthy, \<^verbatim>\<open>int(0.5)\<close> is 0, and at clock time 1000 the field sent is
  \<open>00 00 00 00\<close>, which is \<^verbatim>\<open>int(t)\<close> and not the clock. And for the timestamp \<open>-1.0\<close>,
  whose \<^verbatim>\<open>int\<close> is not 0, no field is sent: \<^verbatim>\<open>to_bytes\<close> raises \<^verbatim>\<open>OverflowError\<close>.
\<close>

theorem timestamp_half_counterexample:
  "py_int (Finite (1 / 2)) = Inr 0 \<and>
   encode stub_digest (Finite 1000) (reply_with []) [] (str ''touch_head'') (str ''alice'')
       (Finite (1 / 2)) (Some (Finite (1 / 2))) =
     (Inr (), [(CMD_ENCODE,
        ljust_cut 24 [116, 111, 117, 99, 104, 95, 104, 101, 97, 100] @ replicate 8 7 @
        [0xBF, 0xFF] @ [0, 0, 0, 0])]) \<and>
   py_int (Finite (- 1)) = Inr (- 1) \<and>
   encode stub_digest (Finite 1000) (reply_with []) [] (str ''touch_head'') (str ''alice'')
       (Finite (1 / 2)) (Some (Finite (- 1))) =
     (Inl OverflowError, [])"
proof -
  have f: "\<lfloor>1 / 2 :: rat\<rfloor> = 0" by (rule floor_unique) simp_all
  have i: "py_int (Finite (1 / 2)) = Inr 0" using f by simp
  have s: "py_int (case Some (Finite (1 / 2)) of None \<Rightarrow> Finite 1000
             | Some t \<Rightarrow> if truthy t then t else Finite 1000) = Inr 0"
    using f by simp
  have z: "to_bytes 0 4 = Inr [0, 0, 0, 0]" by (simp add: to_bytes_def be_bytes_numeral)
  have r: "\<And>p. reply_with [] [] CMD_ENCODE p = Inr []" by (simp add: reply_with_def)
  have "encode stub_digest (Finite 1000) (reply_with []) [] (str ''touch_head'') (str ''alice'')
       (Finite (1 / 2)) (Some (Finite (1 / 2))) =
     (Inr (), [] @ [(CMD_ENCODE,
        ljust_cut 24 (map of_nat (str ''touch_head'')) @ replicate 8 7 @
        [0xBF, 0xFF] @ [0, 0, 0, 0])])"
    by (rule encode_sends [where tr = "reply_with []" and lg = "[]",
          OF touch_head_known s hash_alice valence_half bytes_49151 z r])
  then have e: "encode stub_digest (Finite 1000) (reply_with []) [] (str ''touch_head'') (str ''alice'')
       (Finite (1 / 2)) (Some (Finite (1 / 2))) =
     (Inr (), [(CMD_ENCODE,
        ljust_cut 24 [116, 111, 117, 99, 104, 95, 104, 101, 97, 100] @ replicate 8 7 @
        [0xBF, 0xFF] @ [0, 0, 0, 0])])"
    by (simp add: touch_head_bytes)
  have c: "\<lceil>- 1 :: rat\<rceil> = - 1" by (rule ceiling_unique) simp_all
  have m: "py_int (Finite (- 1)) = Inr (- 1)" using c by simp
  have s': "py_int (case Some (Finite (- 1)) of None \<Rightarrow> Finite 1000
             | Some t \<Rightarrow> if truthy t then t else Finite 1000) = Inr (- 1)"
    using c by simp
  have o: "to_bytes (- 1) 4 = Inl OverflowError" by (simp add: to_bytes_def)
  have e': "encode stub_digest (Finite 1000) (reply_with []) [] (str ''touch_head'') (str ''alice'')
       (Finite (1 / 2)) (Some (Finite (- 1))) = (Inl OverflowError, [])"
    by (rule encode_stamp_overflow [OF touch_head_known s' hash_alice valence_half bytes_49151 o])
  from i e m e' show ?thesis by blast
qed

lemma encode_log:
  assumes "ev \<in> set EVENT_NAMES"
    and "py_int (case timestamp of None \<Rightarrow> now | Some t \<Rightarrow> if truthy t then t else now) = Inr stamp"
    and "hash_uid sha uid = Inr h"
    and "py_int (fl_op (\<lambda>r. r * 65535) (fl_op (\<lambda>r. r / 2) (fl_op (\<lambda>r. r + 1) val))) = Inr k"
    and "to_bytes k 2 = Inr vb"
    and "to_bytes stamp 4 = Inr tb"
  shows "snd (encode sha now tr lg ev uid val timestamp) =
           lg @ [(CMD_ENCODE, ljust_cut 24 (map of_nat ev) @ h @ vb @ tb)]"
  unfolding encode_def
  using assms by (simp add: event_ascii send_cmd_def Let_def split: sum.splits)

lemma stamp_bytes:
  fixes s :: int
  assumes "0 \<le> s" and "s < 2 ^ 32"
  shows "to_bytes s 4 = Inr (be_bytes 4 (nat s))"
    and "int (from_bytes (be_bytes 4 (nat s))) = s"
proof -
  have p: "(256::int) ^ 4 = 2 ^ 32" by simp
  show "to_bytes s 4 = Inr (be_bytes 4 (nat s))"
    using assms by (intro to_bytes_ok) (simp_all only: p)
  have "nat s < 2 ^ 32" using assms by (simp add: nat_less_iff)
  then have "nat s < 256 ^ 4" by simp
  then have "from_bytes (be_bytes 4 (nat s)) = nat s" by (simp add: from_bytes_be_bytes)
  then show "int (from_bytes (be_bytes 4 (nat s))) = s" using assms(1) by simp
qed

lemma trunc_range:
  fixes t :: rat
  assumes "- 1 < t" and "t < 2 ^ 32"
  shows "0 \<le> (if 0 \<le> t then \<lfloor>t\<rfloor> else \<lceil>t\<rceil>)"
    and "(if 0 \<le> t then \<lfloor>t\<rfloor> else \<lceil>t\<rceil>) < 2 ^ 32"
proof -
  have "\<lfloor>t\<rfloor> < 2 ^ 32" using assms(2) by (simp add: floor_less_iff)
  moreover have "t < 0 \<Longrightarrow> \<lceil>t\<rceil> = 0" using assms(1) by (intro ceiling_unique) simp_all
  ultimately show "0 \<le> (if 0 \<le> t then \<lfloor>t\<rfloor> else \<lceil>t\<rceil>)"
    and "(if 0 \<le> t then \<lfloor>t\<rfloor> else \<lceil>t\<rceil>) < 2 ^ 32"
    by auto
qed

text \<open>
  Claim C10, amended. Let the event be a known one, the uid encodable, the valence in
  \<open>[-1, 1]\<close> and the clock \<open>c\<close> in \<open>[0, 2\<^sup>3\<^sup>2)\<close>. When the timestamp is exactly 0, or
  \<^verbatim>\<open>None\<close>, the 4-byte field of the command sent holds \<^verbatim>\<open>int(c)\<close>, the current time. For
  every supplied timestamp \<open>t\<close> other than 0 with \<open>-1 < t < 2\<^sup>3\<^sup>2\<close>, that is with
  \<open>0 \<le> int(t) < 2\<^sup>3\<^sup>2\<close>, the field holds \<^verbatim>\<open>int(t)\<close>: also when \<^verbatim>\<open>int(t)\<close> is 0.
\<close>

theorem timestamp_field:
  assumes "ev \<in> set EVENT_NAMES" and "hash_uid sha uid = Inr h"
    and "- 1 \<le> v" and "v \<le> 1"
    and "0 \<le> c" and "c < 2 ^ 32"
    and "t \<noteq> 0" and "- 1 < t" and "t < 2 ^ 32"
  shows "snd (encode sha (Finite c) tr lg ev uid (Finite v) (Some (Finite 0))) =
           lg @ [(CMD_ENCODE, ljust_cut 24 (map of_nat ev) @ h @
                   be_bytes 2 (nat \<lfloor>fl_round (fl_round (fl_round (v + 1) / 2) * 65535)\<rfloor>) @
                   be_bytes 4 (nat \<lfloor>c\<rfloor>))] \<and>
         snd (encode sha (Finite c) tr lg ev uid (Finite v) None) =
           lg @ [(CMD_ENCODE, ljust_cut 24 (map of_nat ev) @ h @
                   be_bytes 2 (nat \<lfloor>fl_round (fl_round (fl_round (v + 1) / 2) * 65535)\<rfloor>) @
                   be_bytes 4 (nat \<lfloor>c\<rfloor>))] \<and>
         snd (encode sha (Finite c) tr lg ev uid (Finite v) (Some (Finite t))) =
           lg @ [(CMD_ENCODE, ljust_cut 24 (map of_nat ev) @ h @
                   be_bytes 2 (nat \<lfloor>fl_round (fl_round (fl_round (v + 1) / 2) * 65535)\<rfloor>) @
                   be_bytes 4 (nat (if 0 \<le> t then \<lfloor>t\<rfloor> else \<lceil>t\<rceil>)))] \<and>
         int (from_bytes (be_bytes 4 (nat \<lfloor>c\<rfloor>))) = \<lfloor>c\<rfloor> \<and>
         int (from_bytes (be_bytes 4 (nat (if 0 \<le> t then \<lfloor>t\<rfloor> else \<lceil>t\<rceil>)))) =
           (if 0 \<le> t then \<lfloor>t\<rfloor> else \<lceil>t\<rceil>) \<and>
         py_int (Finite t) = Inr (if 0 \<le> t then \<lfloor>t\<rfloor> else \<lceil>t\<rceil>)"
proof -
  note vw = valence_wire [OF assms(3,4)]
  have c0: "0 \<le> \<lfloor>c\<rfloor>" using assms(5) by simp
  have c1: "\<lfloor>c\<rfloor> < 2 ^ 32" using assms(6) by (simp add: floor_less_iff)
  note cb = stamp_bytes [OF c0 c1]
  note tb = stamp_bytes [OF trunc_range [OF assms(8,9)]]
  have clock0: "py_int (case Some (Finite 0) of None \<Rightarrow> Finite c
                 | Some t \<Rightarrow> if truthy t then t else Finite c) = Inr \<lfloor>c\<rfloor>"
    using assms(5) by simp
  have clockN: "py_int (case None of None \<Rightarrow> Finite c
                 | Some t \<Rightarrow> if truthy t then t else Finite c) = Inr \<lfloor>c\<rfloor>"
    using assms(5) by simp
  have given: "py_int (case Some (Finite t) of None \<Rightarrow> Finite c
                 | Some t \<Rightarrow> if truthy t then t else Finite c) =
               Inr (if 0 \<le> t then \<lfloor>t\<rfloor> else \<lceil>t\<rceil>)"
    using assms(7) by simp
  have "snd (encode sha (Finite c) tr lg ev uid (Finite v) (Some (Finite 0))) =
           lg @ [(CMD_ENCODE, ljust_cut 24 (map of_nat ev) @ h @
                   be_bytes 2 (nat \<lfloor>fl_round (fl_round (fl_round (v + 1) / 2) * 65535)\<rfloor>) @
                   be_bytes 4 (nat \<lfloor>c\<rfloor>))]"
    by (rule encode_log [OF assms(1) clock0 assms(2) vw(1) vw(2) cb(1)])
  moreover have "snd (encode sha (Finite c) tr lg ev uid (Finite v) None) =
           lg @ [(CMD_ENCODE, ljust_cut 24 (map of_nat ev) @ h @
                   be_bytes 2 (nat \<lfloor>fl_round (fl_round (fl_round (v + 1) / 2) * 65535)\<rfloor>) @
                   be_bytes 4 (nat \<lfloor>c\<rfloor>))]"
    by (rule encode_log [OF assms(1) clockN assms(2) vw(1) vw(2) cb(1)])
  moreover have "snd (encode sha (Finite c) tr lg ev uid (Finite v) (Some (Finite t))) =
           lg @ [(CMD_ENCODE, ljust_cut 24 (map of_nat ev) @ h @
                   be_bytes 2 (nat \<lfloor>fl_round (fl_round (fl_round (v + 1) / 2) * 65535)\<rfloor>) @
                   be_bytes 4 (nat (if 0 \<le> t then \<lfloor>t\<rfloor> else \<lceil>t\<rceil>)))]"
    by (rule encode_log [OF assms(1) given assms(2) vw(1) vw(2) tb(1)])
  moreover have "py_int (Finite t) = Inr (if 0 \<le> t then \<lfloor>t\<rfloor> else \<lceil>t\<rceil>)" by simp
  ultimately show ?thesis using cb(2) tb(2) by blast
qed

text \<open>
  The amended claim for \<^verbatim>\<open>encode("touch_head", "alice", 0.5, t)\<close> at clock time 1000, with
  \<open>t = 0.5\<close> as the timestamp that is not 0: a timestamp of 0 sends the clock, 1000, and
  \<open>0.5\<close> sends 0.
\<close>

theorem timestamp_field_witness:
  "snd (encode stub_digest (Finite 1000) (reply_with []) [] (str ''touch_head'') (str ''alice'')
          (Finite (1 / 2)) (Some (Finite 0))) =
     [] @ [(CMD_ENCODE, ljust_cut 24 (map of_nat (str ''touch_head'')) @ replicate 8 7 @
             be_bytes 2 (nat \<lfloor>fl_round (fl_round (fl_round (1 / 2 + 1) / 2) * 65535)\<rfloor>) @
             be_bytes 4 (nat \<lfloor>1000 :: rat\<rfloor>))] \<and>
   snd (encode stub_digest (Finite 1000) (reply_with []) [] (str ''touch_head'') (str ''alice'')
          (Finite (1 / 2)) None) =
     [] @ [(CMD_ENCODE, ljust_cut 24 (map of_nat (str ''touch_head'')) @ replicate 8 7 @
             be_bytes 2 (nat \<lfloor>fl_round (fl_round (fl_round (1 / 2 + 1) / 2) * 65535)\<rfloor>) @
             be_bytes 4 (nat \<lfloor>1000 :: rat\<rfloor>))] \<and>
   snd (encode stub_digest (Finite 1000) (reply_with []) [] (str ''touch_head'') (str ''alice'')
          (Finite (1 / 2)) (Some (Finite (1 / 2)))) =
     [] @ [(CMD_ENCODE, ljust_cut 24 (map of_nat (str ''touch_head'')) @ replicate 8 7 @
             be_bytes 2 (nat \<lfloor>fl_round (fl_round (fl_round (1 / 2 + 1) / 2) * 65535)\<rfloor>) @
             be_bytes 4 (nat (if (0::rat) \<le> 1 / 2 then \<lfloor>1 / 2 :: rat\<rfloor> else \<lceil>1 / 2 :: rat\<rceil>)))] \<and>
   int (from_bytes (be_bytes 4 (nat \<lfloor>1000 :: rat\<rfloor>))) = \<lfloor>1000 :: rat\<rfloor> \<and>
   int (from_bytes (be_bytes 4 (nat (if (0::rat) \<le> 1 / 2 then \<lfloor>1 / 2 :: rat\<rfloor> else \<lceil>1 / 2 :: rat\<rceil>)))) =
     (if (0::rat) \<le> 1 / 2 then \<lfloor>1 / 2 :: rat\<rfloor> else \<lceil>1 / 2 :: rat\<rceil>) \<and>
   py_int (Finite (1 / 2)) =
     Inr (if (0::rat) \<le> 1 / 2 then \<lfloor>1 / 2 :: rat\<rfloor> else \<lceil>1 / 2 :: rat\<rceil>) \<and>
   be_bytes 4 (nat \<lfloor>1000 :: rat\<rfloor>) = [0, 0, 3, 0xE8] \<and>
   be_bytes 4 (nat \<lfloor>1 / 2 :: rat\<rfloor>) = [0, 0, 0, 0]"
proof -
  have v0: "(- 1 :: rat) \<le> 1 / 2" and v1: "(1 / 2 :: rat) \<le> 1" by simp_all
  have c0: "(0 :: rat) \<le> 1000" and c1: "(1000 :: rat) < 2 ^ 32" by simp_all
  have t0: "(1 / 2 :: rat) \<noteq> 0" and t1: "(- 1 :: rat) < 1 / 2" and t2: "(1 / 2 :: rat) < 2 ^ 32"
    by simp_all
  have f: "\<lfloor>1 / 2 :: rat\<rfloor> = 0" by (rule floor_unique) simp_all
  have a: "be_bytes 4 (nat \<lfloor>1000 :: rat\<rfloor>) = [0, 0, 3, 0xE8]" by (simp add: be_bytes_numeral)
  have b: "be_bytes 4 (nat \<lfloor>1 / 2 :: rat\<rfloor>) = [0, 0, 0, 0]" by (simp add: f be_bytes_numeral)
  show ?thesis
    using timestamp_field [OF touch_head_known hash_alice v0 v1 c0 c1 t0 t1 t2,
        of "reply_with []" "[]"] a b
    by blast
qed

section \<open>Name fields\<close>

lemma encode_ascii_Inr:
  assumes "encode_ascii n = Inr nb"
  shows "nb = map of_nat n" and "list_all (\<lambda>c. c < 128) n"
  using assms by (auto simp: encode_ascii_def split: if_splits)

lemma unat_ascii:
  assumes "c < 128"
  shows "unat (of_nat c :: byte) = c"
  using assms by (simp add: unat_of_nat)

lemma decode_ascii_bytes:
  assumes "list_all (\<lambda>c. c < 128) p"
  shows "decode_ascii (map of_nat p) = Inr p"
proof -
  have "\<forall>c \<in> set p. unat (of_nat c :: byte) = c"
    using assms by (auto simp: list_all_iff unat_ascii)
  then have "map (\<lambda>c. unat (of_nat c :: byte)) p = p" by (simp add: map_idI)
  moreover have "list_all (\<lambda>b. unat b < 128) (map of_nat p :: bytes)"
    using assms by (auto simp: list_all_iff unat_ascii)
  ultimately show ?thesis by (simp add: decode_ascii_def comp_def)
qed

lemma rstrip0_take: "rstrip0 bs = take (length (rstrip0 bs)) bs"
proof -
  let ?k = "length (takeWhile (\<lambda>b. b = 0) (rev bs))"
  have "rstrip0 bs = rev (drop ?k (rev bs))" by (simp add: rstrip0_def dropWhile_eq_drop)
  also have "\<dots> = take (length bs - ?k) bs" by (simp add: rev_drop)
  finally have e: "rstrip0 bs = take (length bs - ?k) bs" .
  then have "length (rstrip0 bs) = length bs - ?k" by simp
  with e show ?thesis by simp
qed

lemma length_rstrip0_le: "length (rstrip0 bs) \<le> length bs"
  using length_dropWhile_le [of "\<lambda>b. b = 0" "rev bs"] by (simp add: rstrip0_def)

lemma rstrip0_padding: "rstrip0 (bs @ replicate k 0) = rstrip0 bs"
proof -
  have "dropWhile (\<lambda>b. b = 0) (replicate k (0::byte) @ rev bs) = dropWhile (\<lambda>b. b = 0) (rev bs)"
    by (rule dropWhile_append2) simp
  then show ?thesis by (simp add: rstrip0_def)
qed

lemma rstrip0_ljust_cut: "rstrip0 (ljust_cut w bs) = rstrip0 (take w bs)"
proof (cases "length bs \<le> w")
  case True
  then have "ljust_cut w bs = bs @ replicate (w - length bs) 0" by (simp add: ljust_cut_def)
  then show ?thesis using True by (simp add: rstrip0_padding)
next
  case False
  then show ?thesis by (simp add: ljust_cut_def)
qed

lemma rstrip0_fixed:
  assumes "bs = [] \<or> last bs \<noteq> 0"
  shows "rstrip0 bs = bs"
proof (cases bs rule: rev_cases)
  case Nil
  then show ?thesis by (simp add: rstrip0_def)
next
  case (snoc xs x)
  with assms have "x \<noteq> 0" by simp
  then show ?thesis using snoc by (simp add: rstrip0_def)
qed

lemma name_field_decodes:
  assumes "encode_ascii n = Inr nb"
  shows "decode_ascii (rstrip0 (ljust_cut w nb)) = Inr (take (length (rstrip0 (take w nb))) n)"
proof -
  note e = encode_ascii_Inr [OF assms]
  let ?k = "length (rstrip0 (take w nb))"
  have "rstrip0 (ljust_cut w nb) = take ?k (take w nb)"
    using rstrip0_take [of "take w nb"] by (simp only: rstrip0_ljust_cut)
  also have "\<dots> = take (min ?k w) nb" by simp
  also have "min ?k w = ?k"
  proof -
    have "?k \<le> length (take w nb)" by (rule length_rstrip0_le)
    then show ?thesis by simp
  qed
  also have "take ?k nb = map of_nat (take ?k n)" by (simp add: e(1) take_map)
  finally have r: "rstrip0 (ljust_cut w nb) = map of_nat (take ?k n)" .
  have "list_all (\<lambda>c. c < 128) (take ?k n)"
    using e(2) by (auto simp: list_all_iff dest: in_set_takeD)
  then show ?thesis by (simp only: r decode_ascii_bytes)
qed

section \<open>Arrays of records\<close>

declare list_drives_loop.simps [simp del]
declare snapshot_loop.simps [simp del]
declare recall_loop.simps [simp del]

lemma rstrip0_split: "\<exists>j. bs = rstrip0 bs @ replicate j 0"
proof -
  let ?z = "takeWhile (\<lambda>b. b = 0) (rev bs)"
  let ?d = "dropWhile (\<lambda>b. b = 0) (rev bs)"
  have "rev (?z @ ?d) = bs" by (simp only: takeWhile_dropWhile_id rev_rev_ident)
  then have "rev ?d @ rev ?z = bs" by (simp only: rev_append)
  then have e: "bs = rstrip0 bs @ rev ?z" by (simp add: rstrip0_def)
  have "\<forall>b \<in> set (rev ?z). b = 0" by (auto dest: set_takeWhileD)
  then have "replicate (length (rev ?z)) 0 = rev ?z" by (rule replicate_length_same)
  with e show ?thesis by metis
qed

lemma ascii_rstrip0:
  "list_all (\<lambda>b. unat b < 128) (rstrip0 bs) \<longleftrightarrow> list_all (\<lambda>b. unat b < 128) bs"
proof -
  obtain j where e: "bs = rstrip0 bs @ replicate j 0" using rstrip0_split by blast
  have "list_all (\<lambda>b. unat b < 128) (rstrip0 bs @ replicate j 0) \<longleftrightarrow>
        list_all (\<lambda>b. unat b < 128) (rstrip0 bs)"
    by (auto simp: list_all_iff)
  with e show ?thesis by simp
qed

lemma decode_name_field:
  "decode_ascii (rstrip0 (take 16 c)) =
     (if ascii_name c then Inr (fst (named_value c)) else Inl UnicodeDecodeError)"
  by (simp add: decode_ascii_def ascii_rstrip0 ascii_name_def named_value_def)

lemma full_chunk:
  assumes "k < length raw div 18"
  shows "18 * k < length raw" and "length (take 18 (drop (18 * k) raw)) = 18"
proof -
  have "18 * (k + 1) \<le> 18 * (length raw div 18)" using assms by simp
  also have "\<dots> \<le> length raw" by simp
  finally have "18 * k + 18 \<le> length raw" by simp
  then show "18 * k < length raw" and "length (take 18 (drop (18 * k) raw)) = 18" by simp_all
qed

lemma last_chunk:
  assumes "18 * (length raw div 18) < length raw"
  shows "length (take 18 (drop (18 * (length raw div 18)) raw)) < 18"
proof -
  have "length raw - 18 * (length raw div 18) = length raw mod 18"
    by (simp add: minus_mult_div_eq_mod)
  then show ?thesis by simp
qed

lemma list_drives_loop_step:
  assumes "k < length raw div 18"
  shows "list_drives_loop raw (18 * k) acc =
           (if ascii_name (chunk_at 18 raw k)
            then list_drives_loop raw (18 * Suc k) (store acc (named_value (chunk_at 18 raw k)))
            else Inl UnicodeDecodeError)"
proof -
  note f = full_chunk [OF assms]
  have i: "18 * k + 18 = 18 * Suc k" by simp
  have eq: "list_drives_loop raw (18 * k) acc =
          (case decode_ascii (rstrip0 (take 16 (chunk_at 18 raw k))) of
             Inl e \<Rightarrow> Inl e
           | Inr name \<Rightarrow>
               list_drives_loop raw (18 * Suc k)
                 (AList.update name
                    (unit_of_int (from_bytes (take (18 - 16) (drop 16 (chunk_at 18 raw k))))) acc))"
    by (subst list_drives_loop.simps) (simp only: f chunk_at_def if_True if_False less_irrefl i)
  show ?thesis
    by (subst eq) (simp add: decode_name_field store_def named_value_def)
qed

lemma list_drives_loop_done:
  "list_drives_loop raw (18 * (length raw div 18)) acc = Inr acc"
proof (cases "18 * (length raw div 18) < length raw")
  case True
  then have "length (take 18 (drop (18 * (length raw div 18)) raw)) < 18" by (rule last_chunk)
  then show ?thesis using True by (subst list_drives_loop.simps) (simp only: if_True)
next
  case False
  then show ?thesis by (subst list_drives_loop.simps) (simp only: if_False)
qed

lemma list_drives_loop_eq:
  assumes "k0 \<le> length raw div 18"
  shows "list_drives_loop raw (18 * k0) acc =
           (if list_all (\<lambda>k. ascii_name (chunk_at 18 raw k)) [k0..<length raw div 18]
            then Inr (foldl (\<lambda>d k. store d (named_value (chunk_at 18 raw k))) acc
                       [k0..<length raw div 18])
            else Inl UnicodeDecodeError)"
  using assms
proof (induction "length raw div 18 - k0" arbitrary: k0 acc)
  case 0
  then have k0: "k0 = length raw div 18" by simp
  show ?case unfolding k0 by (simp add: list_drives_loop_done)
next
  case (Suc n)
  then have lt: "k0 < length raw div 18" by simp
  have upt: "[k0..<length raw div 18] = k0 # [Suc k0..<length raw div 18]"
    using lt by (rule upt_conv_Cons)
  have IH: "list_drives_loop raw (18 * Suc k0) acc' =
           (if list_all (\<lambda>k. ascii_name (chunk_at 18 raw k)) [Suc k0..<length raw div 18]
            then Inr (foldl (\<lambda>d k. store d (named_value (chunk_at 18 raw k))) acc'
                       [Suc k0..<length raw div 18])
            else Inl UnicodeDecodeError)" for acc'
    using Suc.hyps(2) lt by (intro Suc.hyps(1)) simp_all
  show ?case
    by (simp only: list_drives_loop_step [OF lt] IH upt) simp
qed

lemma snapshot_loop_step:
  assumes "k < length raw div 18"
  shows "snapshot_loop raw (18 * k) acc =
           (if ascii_name (chunk_at 18 raw k)
            then snapshot_loop raw (18 * Suc k)
                   (store acc (fst (named_value (chunk_at 18 raw k)),
                               round4 (snd (named_value (chunk_at 18 raw k)))))
            else Inl UnicodeDecodeError)"
proof -
  note f = full_chunk [OF assms]
  have i: "18 * k + 18 = 18 * Suc k" by simp
  have eq: "snapshot_loop raw (18 * k) acc =
          (case decode_ascii (rstrip0 (take 16 (chunk_at 18 raw k))) of
             Inl e \<Rightarrow> Inl e
           | Inr name \<Rightarrow>
               snapshot_loop raw (18 * Suc k)
                 (AList.update name
                    (round4 (unit_of_int (from_bytes (take (18 - 16) (drop 16 (chunk_at 18 raw k))))))
                    acc))"
    by (subst snapshot_loop.simps) (simp only: f chunk_at_def if_True if_False less_irrefl i)
  show ?thesis
    by (subst eq) (simp add: decode_name_field store_def named_value_def)
qed

lemma snapshot_loop_done:
  "snapshot_loop raw (18 * (length raw div 18)) acc = Inr acc"
proof (cases "18 * (length raw div 18) < length raw")
  case True
  then have "length (take 18 (drop (18 * (length raw div 18)) raw)) < 18" by (rule last_chunk)
  then show ?thesis using True by (subst snapshot_loop.simps) (simp only: if_True)
next
  case False
  then show ?thesis by (subst snapshot_loop.simps) (simp only: if_False)
qed

lemma snapshot_loop_eq:
  assumes "k0 \<le> length raw div 18"
  shows "snapshot_loop raw (18 * k0) acc =
           (if list_all (\<lambda>k. ascii_name (chunk_at 18 raw k)) [k0..<length raw div 18]
            then Inr (foldl (\<lambda>d k. store d (fst (named_value (chunk_at 18 raw k)),
                                              round4 (snd (named_value (chunk_at 18 raw k)))))
                       acc [k0..<length raw div 18])
            else Inl UnicodeDecodeError)"
  using assms
proof (induction "length raw div 18 - k0" arbitrary: k0 acc)
  case 0
  then have k0: "k0 = length raw div 18" by simp
  show ?case unfolding k0 by (simp add: snapshot_loop_done)
next
  case (Suc n)
  then have lt: "k0 < length raw div 18" by simp
  have upt: "[k0..<length raw div 18] = k0 # [Suc k0..<length raw div 18]"
    using lt by (rule upt_conv_Cons)
  have IH: "snapshot_loop raw (18 * Suc k0) acc' =
           (if list_all (\<lambda>k. ascii_name (chunk_at 18 raw k)) [Suc k0..<length raw div 18]
            then Inr (foldl (\<lambda>d k. store d (fst (named_value (chunk_at 18 raw k)),
                                              round4 (snd (named_value (chunk_at 18 raw k)))))
                       acc' [Suc k0..<length raw div 18])
            else Inl UnicodeDecodeError)" for acc'
    using Suc.hyps(2) lt by (intro Suc.hyps(1)) simp_all
  show ?case
    by (simp only: snapshot_loop_step [OF lt] IH upt) simp
qed

lemma full_episode:
  assumes "k < length raw div 38"
  shows "38 * k < length raw" and "length (take 38 (drop (38 * k) raw)) = 38"
proof -
  have "38 * (k + 1) \<le> 38 * (length raw div 38)" using assms by simp
  also have "\<dots> \<le> length raw" by simp
  finally have "38 * k + 38 \<le> length raw" by simp
  then show "38 * k < length raw" and "length (take 38 (drop (38 * k) raw)) = 38" by simp_all
qed

lemma last_episode:
  assumes "38 * (length raw div 38) < length raw"
  shows "length (take 38 (drop (38 * (length raw div 38)) raw)) < 38"
proof -
  have "length raw - 38 * (length raw div 38) = length raw mod 38"
    by (simp add: minus_mult_div_eq_mod)
  then show ?thesis by simp
qed

lemma recall_loop_step:
  assumes "k < length raw div 38"
  shows "recall_loop raw (38 * k) evs =
           recall_loop raw (38 * Suc k) (evs @ [episode_of (chunk_at 38 raw k)])"
proof -
  note f = full_episode [OF assms]
  have i: "38 * k + 38 = 38 * Suc k" by simp
  show ?thesis
    by (subst recall_loop.simps)
       (simp only: f chunk_at_def episode_of_def if_True if_False less_irrefl i, simp)
qed

lemma recall_loop_done:
  "recall_loop raw (38 * (length raw div 38)) evs = evs"
proof (cases "38 * (length raw div 38) < length raw")
  case True
  then have "length (take 38 (drop (38 * (length raw div 38)) raw)) < 38" by (rule last_episode)
  then show ?thesis using True by (subst recall_loop.simps) (simp only: if_True)
next
  case False
  then show ?thesis by (subst recall_loop.simps) (simp only: if_False)
qed

lemma recall_loop_eq:
  assumes "k0 \<le> length raw div 38"
  shows "recall_loop raw (38 * k0) evs =
           evs @ map (\<lambda>k. episode_of (chunk_at 38 raw k)) [k0..<length raw div 38]"
  using assms
proof (induction "length raw div 38 - k0" arbitrary: k0 evs)
  case 0
  then have k0: "k0 = length raw div 38" by simp
  show ?case unfolding k0 by (simp add: recall_loop_done)
next
  case (Suc n)
  then have lt: "k0 < length raw div 38" by simp
  have upt: "[k0..<length raw div 38] = k0 # [Suc k0..<length raw div 38]"
    using lt by (rule upt_conv_Cons)
  have IH: "recall_loop raw (38 * Suc k0) evs' =
              evs' @ map (\<lambda>k. episode_of (chunk_at 38 raw k)) [Suc k0..<length raw div 38]" for evs'
    using Suc.hyps(2) lt by (intro Suc.hyps(1)) simp_all
  show ?case
    by (simp only: recall_loop_step [OF lt] IH upt) simp
qed

lemma list_drives_result:
  assumes "tr (unit_log m) CMD_LIST_DRIVES [] = Inr raw"
  shows "fst (list_drives tr m) = list_drives_loop raw 0 []"
  using assms by (simp add: list_drives_def send_cmd_def split: sum.splits)

lemma snapshot_result:
  assumes "tr lg CMD_TRAIT_SNAPSHOT [] = Inr raw"
  shows "fst (snapshot tr lg) = snapshot_loop raw 0 []"
  using assms by (simp add: snapshot_def send_cmd_def split: sum.splits)

lemma recall_result:
  assumes "to_bytes limit 2 = Inr payload" and "tr lg CMD_RECALL payload = Inr raw"
  shows "fst (recall tr lg limit) = Inr (recall_loop raw 0 [])"
  using assms by (simp add: recall_def send_cmd_def)

lemma list_drives_decodes:
  assumes "tr (unit_log m) CMD_LIST_DRIVES [] = Inr raw"
  shows "fst (list_drives tr m) =
           (if list_all (\<lambda>k. ascii_name (chunk_at 18 raw k)) [0..<length raw div 18]
            then Inr (foldl (\<lambda>d k. store d (named_value (chunk_at 18 raw k))) []
                       [0..<length raw div 18])
            else Inl UnicodeDecodeError)"
  using list_drives_loop_eq [of 0 raw "[]"]
  by (simp add: list_drives_result [where tr = tr and m = m, OF assms])

lemma snapshot_decodes:
  assumes "tr lg CMD_TRAIT_SNAPSHOT [] = Inr raw"
  shows "fst (snapshot tr lg) =
           (if list_all (\<lambda>k. ascii_name (chunk_at 18 raw k)) [0..<length raw div 18]
            then Inr (foldl (\<lambda>d k. store d (fst (named_value (chunk_at 18 raw k)),
                                              round4 (snd (named_value (chunk_at 18 raw k)))))
                       [] [0..<length raw div 18])
            else Inl UnicodeDecodeError)"
  using snapshot_loop_eq [of 0 raw "[]"]
  by (simp add: snapshot_result [where tr = tr and lg = lg, OF assms])

lemma recall_decodes:
  assumes "to_bytes limit 2 = Inr payload" and "tr lg CMD_RECALL payload = Inr raw"
  shows "fst (recall tr lg limit) =
           Inr (map (\<lambda>k. episode_of (chunk_at 38 raw k)) [0..<length raw div 38])"
  using recall_loop_eq [of 0 raw "[]"]
  by (simp add: recall_result [where tr = tr and lg = lg, OF assms])

lemma bad_name_chunk:
  "length (0x80 # replicate 17 (0::byte)) div 18 = 1"
  "\<not> ascii_name (chunk_at 18 (0x80 # replicate 17 0) 0)"
  by (simp_all add: ascii_name_def chunk_at_def)









section \<open>Strict and lenient decoding of names\<close>

lemma episode_event:
  "event (episode_of c) =
     map (\<lambda>b. if unat b < 128 then unat b else 0xFFFD) (rstrip0 (take 24 c))"
  by (simp add: episode_of_def decode_ascii_replace_def)

text \<open>
  Claim C9. Name decoding is asymmetric. \<^verbatim>\<open>recall\<close> never fails on the bytes of a reply:
  it returns one event per full 38-byte record, and the name of each is its name field
  without the trailing zero bytes, every byte below \<open>0x80\<close> as the character it is and
  every other byte as the replacement character U+FFFD. \<^verbatim>\<open>list_drives\<close> and \<^verbatim>\<open>snapshot\<close>
  raise \<^verbatim>\<open>UnicodeDecodeError\<close>, the decoding error of the source, as soon as the name
  field of one full 18-byte record holds a byte that is not ASCII.
\<close>

theorem name_decoding_asymmetric:
  "(to_bytes limit 2 = Inr payload \<longrightarrow>
    tr lg CMD_RECALL payload = Inr raw \<longrightarrow>
      (\<exists>es. fst (recall tr lg limit) = Inr es \<and>
            length es = length raw div 38 \<and>
            map event es =
              map (\<lambda>k. map (\<lambda>b. if unat b < 128 then unat b else 0xFFFD)
                            (rstrip0 (take 24 (chunk_at 38 raw k))))
                [0..<length raw div 38])) \<and>
   (tr' (unit_log m) CMD_LIST_DRIVES [] = Inr buf \<longrightarrow>
    \<not> list_all (\<lambda>k. ascii_name (chunk_at 18 buf k)) [0..<length buf div 18] \<longrightarrow>
      fst (list_drives tr' m) = Inl UnicodeDecodeError) \<and>
   (tr'' lg' CMD_TRAIT_SNAPSHOT [] = Inr buf' \<longrightarrow>
    \<not> list_all (\<lambda>k. ascii_name (chunk_at 18 buf' k)) [0..<length buf' div 18] \<longrightarrow>
      fst (snapshot tr'' lg') = Inl UnicodeDecodeError)"
proof (intro conjI impI)
  assume a: "to_bytes limit 2 = Inr payload" and b: "tr lg CMD_RECALL payload = Inr raw"
  let ?es = "map (\<lambda>k. episode_of (chunk_at 38 raw k)) [0..<length raw div 38]"
  have "fst (recall tr lg limit) = Inr ?es"
    by (rule recall_decodes [where tr = tr and lg = lg, OF a b])
  moreover have "length ?es = length raw div 38" by simp
  moreover have "map event ?es =
      map (\<lambda>k. map (\<lambda>b. if unat b < 128 then unat b else 0xFFFD)
                    (rstrip0 (take 24 (chunk_at 38 raw k))))
        [0..<length raw div 38]"
    by (simp add: episode_event comp_def)
  ultimately show "\<exists>es. fst (recall tr lg limit) = Inr es \<and>
            length es = length raw div 38 \<and>
            map event es =
              map (\<lambda>k. map (\<lambda>b. if unat b < 128 then unat b else 0xFFFD)
                            (rstrip0 (take 24 (chunk_at 38 raw k))))
                [0..<length raw div 38]"
    by blast
next
  assume a: "tr' (unit_log m) CMD_LIST_DRIVES [] = Inr buf"
    and b: "\<not> list_all (\<lambda>k. ascii_name (chunk_at 18 buf k)) [0..<length buf div 18]"
  show "fst (list_drives tr' m) = Inl UnicodeDecodeError"
    using b by (simp only: list_drives_decodes [where tr = tr' and m = m, OF a] if_False)
next
  assume a: "tr'' lg' CMD_TRAIT_SNAPSHOT [] = Inr buf'"
    and b: "\<not> list_all (\<lambda>k. ascii_name (chunk_at 18 buf' k)) [0..<length buf' div 18]"
  show "fst (snapshot tr'' lg') = Inl UnicodeDecodeError"
    using b by (simp only: snapshot_decodes [where tr = tr'' and lg = lg', OF a] if_False)
qed

lemma one_episode_chunk:
  "length one_episode div 38 = 1"
  "rstrip0 (take 24 (chunk_at 38 one_episode 0)) = [0x80]"
  by (simp_all add: one_episode_def chunk_at_def rstrip0_def)

text \<open>
  The claim on a reply to \<^verbatim>\<open>recall(16)\<close> that holds one record whose name field starts
  with the byte \<open>0x80\<close>, and on the same kind of reply to \<^verbatim>\<open>list_drives\<close> and to
  \<^verbatim>\<open>snapshot\<close>: one event named by the replacement character, and two errors.
\<close>

theorem name_decoding_asymmetric_witness:
  "(\<exists>es. fst (recall (reply_with one_episode) [] 16) = Inr es \<and>
         length es = length one_episode div 38 \<and>
         map event es =
           map (\<lambda>k. map (\<lambda>b. if unat b < 128 then unat b else 0xFFFD)
                         (rstrip0 (take 24 (chunk_at 38 one_episode k))))
             [0..<length one_episode div 38]) \<and>
   fst (list_drives (reply_with (0x80 # replicate 17 0)) fresh_model) = Inl UnicodeDecodeError \<and>
   fst (snapshot (reply_with (0x80 # replicate 17 0)) []) = Inl UnicodeDecodeError \<and>
   map (\<lambda>k. map (\<lambda>b. if unat b < 128 then unat b else 0xFFFD)
                 (rstrip0 (take 24 (chunk_at 38 one_episode k))))
     [0..<length one_episode div 38] = [[0xFFFD]]"
proof -
  have a: "to_bytes 16 2 = Inr [0, 16]" by (simp add: to_bytes_def be_bytes_numeral)
  have b: "reply_with one_episode [] CMD_RECALL [0, 16] = Inr one_episode"
    by (simp add: reply_with_def)
  have c: "reply_with (0x80 # replicate 17 0) (unit_log fresh_model) CMD_LIST_DRIVES [] =
             Inr (0x80 # replicate 17 0)"
    by (simp add: reply_with_def)
  have d: "reply_with (0x80 # replicate 17 0) [] CMD_TRAIT_SNAPSHOT [] = Inr (0x80 # replicate 17 0)"
    by (simp add: reply_with_def)
  have e: "\<not> list_all (\<lambda>k. ascii_name (chunk_at 18 (0x80 # replicate 17 0) k))
              [0..<length (0x80 # replicate 17 (0::byte)) div 18]"
    by (simp only: bad_name_chunk(1)) (simp add: bad_name_chunk(2))
  have f: "map (\<lambda>k. map (\<lambda>b. if unat b < 128 then unat b else 0xFFFD)
                 (rstrip0 (take 24 (chunk_at 38 one_episode k))))
     [0..<length one_episode div 38] = [[0xFFFD]]"
    by (simp add: one_episode_chunk)
  show ?thesis
    using name_decoding_asymmetric
      [where limit = 16 and payload = "[0, 16]" and tr = "reply_with one_episode" and lg = "[]"
         and raw = one_episode and tr' = "reply_with (0x80 # replicate 17 0)" and m = fresh_model
         and buf = "0x80 # replicate 17 0" and tr'' = "reply_with (0x80 # replicate 17 0)"
         and lg' = "[]" and buf' = "0x80 # replicate 17 0"]
      a b c d e f
    by blast
qed

section \<open>A name from set_drive to list_drives\<close>

lemma ascii_name_field:
  assumes "encode_ascii n = Inr nb"
  shows "list_all (\<lambda>b. unat b < 128) (ljust_cut w nb)"
    and "decode_ascii (rstrip0 (ljust_cut w nb)) = Inr (map unat (rstrip0 (ljust_cut w nb)))"
proof -
  have "decode_ascii (rstrip0 (ljust_cut w nb)) \<noteq> Inl UnicodeDecodeError"
    by (simp add: name_field_decodes [OF assms])
  then have a: "list_all (\<lambda>b. unat b < 128) (rstrip0 (ljust_cut w nb))"
    by (auto simp: decode_ascii_def split: if_splits)
  then show "list_all (\<lambda>b. unat b < 128) (ljust_cut w nb)" by (simp only: ascii_rstrip0)
  show "decode_ascii (rstrip0 (ljust_cut w nb)) = Inr (map unat (rstrip0 (ljust_cut w nb)))"
    using a by (simp add: decode_ascii_def)
qed

lemma one_record:
  assumes "length c = 18"
  shows "length c div 18 = 1" and "chunk_at 18 c 0 = c"
  using assms by (simp_all add: chunk_at_def)

lemma set_drive_then_list:
  assumes "0 \<le> v" and "v \<le> 1" and "encode_ascii n = Inr nb"
    and "tr (unit_log (snd (set_drive tr m n (Finite v)))) CMD_LIST_DRIVES [] =
           Inr (snd (last (unit_log (snd (set_drive tr m n (Finite v))))))"
  shows "fst (list_drives tr (snd (set_drive tr m n (Finite v)))) =
           Inr [(map unat (rstrip0 (ljust_cut 16 nb)),
                 unit_of_int (nat \<lfloor>fl_round (v * 65535)\<rfloor>))]"
proof -
  let ?k = "nat \<lfloor>fl_round (v * 65535)\<rfloor>"
  let ?P = "ljust_cut 16 nb @ be_bytes 2 ?k"
  let ?m' = "snd (set_drive tr m n (Finite v))"
  note w = unit_wire [OF assms(1,2)]
  have lg: "unit_log ?m' = unit_log m @ [(CMD_SET_DRIVE, ?P)]"
    by (rule set_drive_sends [OF assms(1-3)])
  have reply: "tr (unit_log ?m') CMD_LIST_DRIVES [] = Inr ?P"
    using assms(4) by (simp add: lg)
  have len: "length ?P = 18" by (simp add: length_ljust_cut length_be_bytes)
  note o = one_record [OF len]
  have name: "take 16 ?P = ljust_cut 16 nb" by (simp add: length_ljust_cut)
  have val: "take 2 (drop 16 ?P) = be_bytes 2 ?k" by (simp add: length_ljust_cut length_be_bytes)
  have ok: "ascii_name ?P"
    unfolding ascii_name_def name by (rule ascii_name_field(1) [OF assms(3)])
  have nv: "named_value ?P = (map unat (rstrip0 (ljust_cut 16 nb)), unit_of_int ?k)"
    unfolding named_value_def name val by (simp only: w(5))
  have u: "[0..<1] = [0]" by simp
  have "fst (list_drives tr ?m') =
          (if list_all (\<lambda>k. ascii_name (chunk_at 18 ?P k)) [0..<length ?P div 18]
           then Inr (foldl (\<lambda>d k. store d (named_value (chunk_at 18 ?P k))) []
                      [0..<length ?P div 18])
           else Inl UnicodeDecodeError)"
    by (rule list_drives_decodes [where tr = tr and m = ?m', OF reply])
  also have "\<dots> = Inr [(map unat (rstrip0 (ljust_cut 16 nb)), unit_of_int ?k)]"
    by (simp only: o u) (simp add: o ok nv store_def)
  finally show ?thesis .
qed

lemma mirror_after_set_drive:
  assumes "0 \<le> v" and "v \<le> 1" and "encode_ascii n = Inr nb"
  shows "mirror_unit (unit_log (snd (set_drive mirror_unit m n (Finite v)))) CMD_LIST_DRIVES [] =
           Inr (snd (last (unit_log (snd (set_drive mirror_unit m n (Finite v))))))"
  by (simp add: set_drive_sends [OF assms] mirror_unit_def)

text \<open>
  Claim C5 says that every ASCII name no longer than the field comes back from the
  name field unchanged. NUL is an ASCII character, and \<^verbatim>\<open>rstrip(b"\x00")\<close> cannot tell
  a NUL of the name from the padding: the two-character name \<open>A\<close>, NUL is encoded in
  16 bytes and decoded as the one-character name \<open>A\<close>. So \<^verbatim>\<open>set_drive("A\x00", 0.0)\<close>
  followed by \<^verbatim>\<open>list_drives()\<close>, on a unit that answers with the record it was sent,
  returns the drive \<open>A\<close>.
\<close>

theorem name_trailing_nul_counterexample:
  "encode_ascii [65, 0] = Inr [65, 0] \<and>
   length [65, 0 :: nat] \<le> 16 \<and>
   ljust_cut 16 [65, 0] = 65 # replicate 15 0 \<and>
   decode_ascii (rstrip0 (ljust_cut 16 [65, 0])) = Inr [65] \<and>
   fst (list_drives mirror_unit (snd (set_drive mirror_unit fresh_model [65, 0] (Finite 0)))) =
     Inr [([65], Finite 0)]"
proof -
  have a: "encode_ascii [65, 0] = Inr [65, 0]" by (simp add: encode_ascii_def)
  have b: "ljust_cut 16 [65, 0] = 65 # replicate 15 0"
    by (simp add: ljust_cut_def numeral_eq_Suc)
  have "rstrip0 (ljust_cut 16 [65, 0]) = rstrip0 ([65] @ replicate 15 0)"
    by (simp only: b) simp
  also have "\<dots> = [65]" by (simp only: rstrip0_padding) (simp add: rstrip0_def)
  finally have r: "rstrip0 (ljust_cut 16 [65, 0]) = [65]" .
  then have c: "decode_ascii (rstrip0 (ljust_cut 16 [65, 0])) = Inr [65]"
    by (simp add: decode_ascii_def)
  have v0: "(0::rat) \<le> 0" and v1: "(0::rat) \<le> 1" by simp_all
  have "fst (list_drives mirror_unit (snd (set_drive mirror_unit fresh_model [65, 0] (Finite 0)))) =
          Inr [(map unat (rstrip0 (ljust_cut 16 [65, 0])),
                unit_of_int (nat \<lfloor>fl_round (0 * 65535)\<rfloor>))]"
    by (rule set_drive_then_list [OF v0 v1 a mirror_after_set_drive [OF v0 v1 a]])
  then have d: "fst (list_drives mirror_unit
                   (snd (set_drive mirror_unit fresh_model [65, 0] (Finite 0)))) =
                Inr [([65], Finite 0)]"
    by (simp add: r unit_of_int_0)
  from a b c d show ?thesis by simp
qed

text \<open>
  Claim C5, amended. For every ASCII name \<open>n\<close> and every width \<open>w\<close>: the encoded field
  has exactly \<open>w\<close> bytes, and decoding it (strip the trailing zero bytes, decode as
  ASCII) never fails and yields a prefix of \<open>n\<close>; when \<open>n\<close> is no longer than \<open>w\<close> and
  does not end in a NUL character, it yields \<open>n\<close>. The 16-byte field is the one of the
  operations: when the unit answers \<^verbatim>\<open>LIST_DRIVES\<close> with the record \<^verbatim>\<open>set_drive\<close> has
  just sent for \<open>n\<close>, \<^verbatim>\<open>list_drives\<close> returns one drive, named by the decoded field.
\<close>

theorem name_round_trip:
  assumes "encode_ascii n = Inr nb"
  shows "length (ljust_cut w nb) = w \<and>
         (\<exists>p. decode_ascii (rstrip0 (ljust_cut w nb)) = Inr p \<and> prefix p n) \<and>
         (length n \<le> w \<and> (n = [] \<or> last n \<noteq> 0) \<longrightarrow>
            decode_ascii (rstrip0 (ljust_cut w nb)) = Inr n) \<and>
         (0 \<le> v \<and> v \<le> 1 \<and>
          tr (unit_log (snd (set_drive tr m n (Finite v)))) CMD_LIST_DRIVES [] =
            Inr (snd (last (unit_log (snd (set_drive tr m n (Finite v)))))) \<longrightarrow>
            (\<exists>p val. decode_ascii (rstrip0 (ljust_cut 16 nb)) = Inr p \<and>
                     fst (list_drives tr (snd (set_drive tr m n (Finite v)))) = Inr [(p, val)]))"
proof (intro conjI impI)
  note e = encode_ascii_Inr [OF assms]
  note d = name_field_decodes [OF assms, of w]
  show "length (ljust_cut w nb) = w" by (rule length_ljust_cut)
  show "\<exists>p. decode_ascii (rstrip0 (ljust_cut w nb)) = Inr p \<and> prefix p n"
    using d take_is_prefix by blast
  {
    assume h: "length n \<le> w \<and> (n = [] \<or> last n \<noteq> 0)"
    then have whole: "take w nb = nb" by (simp add: e(1))
    have "nb = [] \<or> last nb \<noteq> 0"
    proof (cases "n = []")
      case True
      then show ?thesis by (simp add: e(1))
    next
      case False
      with h have l: "last n \<noteq> 0" by simp
      have "last n \<in> set n" using False by simp
      then have "last n < 128" using e(2) by (simp add: list_all_iff)
      then have "unat (of_nat (last n) :: byte) = last n" by (rule unat_ascii)
      with l have "(of_nat (last n) :: byte) \<noteq> 0" by auto
      then show ?thesis using False by (simp add: e(1) last_map)
    qed
    then have "rstrip0 nb = nb" by (rule rstrip0_fixed)
    then have "rstrip0 (take w nb) = nb" by (simp only: whole)
    then have "length (rstrip0 (take w nb)) = length n" by (simp add: e(1))
    then show "decode_ascii (rstrip0 (ljust_cut w nb)) = Inr n" using d by simp
  }
  {
    assume h: "0 \<le> v \<and> v \<le> 1 \<and>
          tr (unit_log (snd (set_drive tr m n (Finite v)))) CMD_LIST_DRIVES [] =
            Inr (snd (last (unit_log (snd (set_drive tr m n (Finite v))))))"
    then have v0: "0 \<le> v" and v1: "v \<le> 1"
      and r: "tr (unit_log (snd (set_drive tr m n (Finite v)))) CMD_LIST_DRIVES [] =
            Inr (snd (last (unit_log (snd (set_drive tr m n (Finite v))))))"
      by simp_all
    have "fst (list_drives tr (snd (set_drive tr m n (Finite v)))) =
           Inr [(map unat (rstrip0 (ljust_cut 16 nb)),
                 unit_of_int (nat \<lfloor>fl_round (v * 65535)\<rfloor>))]"
      by (rule set_drive_then_list [OF v0 v1 assms r])
    with ascii_name_field(2) [OF assms, of 16]
    show "\<exists>p val. decode_ascii (rstrip0 (ljust_cut 16 nb)) = Inr p \<and>
                     fst (list_drives tr (snd (set_drive tr m n (Finite v)))) = Inr [(p, val)]"
      by blast
  }
qed

text \<open>
  The amended claim for the drive name \<open>curiosity\<close>, which comes back unchanged from its
  16-byte field and from \<^verbatim>\<open>list_drives\<close>, and for a name of 19 characters, cut to 16.
\<close>

theorem name_round_trip_witness:
  "length (ljust_cut 16 [99, 117, 114, 105, 111, 115, 105, 116, 121]) = 16 \<and>
   (\<exists>p. decode_ascii (rstrip0 (ljust_cut 16 [99, 117, 114, 105, 111, 115, 105, 116, 121])) = Inr p \<and>
        prefix p (str ''curiosity'')) \<and>
   decode_ascii (rstrip0 (ljust_cut 16 [99, 117, 114, 105, 111, 115, 105, 116, 121])) =
     Inr (str ''curiosity'') \<and>
   (\<exists>val. fst (list_drives mirror_unit
                 (snd (set_drive mirror_unit fresh_model (str ''curiosity'') (Finite (1 / 2))))) =
            Inr [(str ''curiosity'', val)]) \<and>
   length (ljust_cut 16 (map of_nat (str ''abcdefghijklmnopqrs''))) = 16 \<and>
   (\<exists>p. decode_ascii (rstrip0 (ljust_cut 16 (map of_nat (str ''abcdefghijklmnopqrs'')))) = Inr p \<and>
        prefix p (str ''abcdefghijklmnopqrs''))"
proof -
  have a: "encode_ascii (str ''curiosity'') = Inr [99, 117, 114, 105, 111, 115, 105, 116, 121]"
    by (simp add: encode_ascii_def str_def)
  have b: "length (str ''curiosity'') \<le> 16 \<and>
           (str ''curiosity'' = [] \<or> last (str ''curiosity'') \<noteq> 0)"
    by (simp add: str_def)
  have c: "encode_ascii (str ''abcdefghijklmnopqrs'') = Inr (map of_nat (str ''abcdefghijklmnopqrs''))"
    by (simp add: encode_ascii_def str_def)
  have v0: "(0::rat) \<le> 1 / 2" and v1: "(1 / 2 :: rat) \<le> 1" by simp_all
  note d = mirror_after_set_drive [OF v0 v1 a, of fresh_model]
  note t = name_round_trip [OF a, of 16 "1 / 2" mirror_unit fresh_model]
  from t b have e: "decode_ascii (rstrip0 (ljust_cut 16 [99, 117, 114, 105, 111, 115, 105, 116, 121])) =
      Inr (str ''curiosity'')"
    by blast
  from t v0 v1 d obtain p val
    where "decode_ascii (rstrip0 (ljust_cut 16 [99, 117, 114, 105, 111, 115, 105, 116, 121])) = Inr p"
      and "fst (list_drives mirror_unit
                 (snd (set_drive mirror_unit fresh_model (str ''curiosity'') (Finite (1 / 2))))) =
            Inr [(p, val)]"
    by blast
  with e have f: "\<exists>val. fst (list_drives mirror_unit
                 (snd (set_drive mirror_unit fresh_model (str ''curiosity'') (Finite (1 / 2))))) =
            Inr [(str ''curiosity'', val)]"
    by auto
  show ?thesis
    using t name_round_trip [OF c, of 16] e f by blast
qed

end
